theory Spec2Isabelle
  imports Main
begin

section \<open>Trinity gene splice modeler: the embedding\<close>

text \<open>
  The source is \<^verbatim>\<open>src/util/Trinity_gene_splice_modeler.py\<close>. Strings are \<open>char list\<close>,
  Python integers are \<open>int\<close>, a raised exception is the \<open>Inl\<close> of a sum, objects live in
  an explicit store and a reference is the index of the object in it.
\<close>

subsection \<open>Exceptions and name lookup\<close>

datatype error =
    NameError string
  | ValueError
  | IndexError
  | Raised string

text \<open>
  The names bound at module level when a method body runs: the imports of lines 4 to 10,
  \<^verbatim>\<open>logger\<close>, the five classes and \<^verbatim>\<open>main\<close>. A name used bare inside a method is looked up
  among the locals, then here, then among the builtins; the attributes of the enclosing
  class (\<^verbatim>\<open>node_cache\<close>, \<^verbatim>\<open>get_node_id\<close>) are not in scope there. The builtins that the
  source uses are listed; \<^verbatim>\<open>RuntimeException\<close> and \<^verbatim>\<open>RuntimeExcpetion\<close> are not Python
  builtins.
\<close>

definition module_globals :: "string list" where
  "module_globals =
     [''absolute_import'', ''division'', ''print_function'', ''unicode_literals'',
      ''os'', ''sys'', ''re'', ''logging'', ''argparse'', ''collections'', ''numpy'',
      ''logger'', ''Node'', ''Node_path'', ''Trinity_fasta_parser'', ''Node_alignment'',
      ''Gene_splice_modeler'', ''main'']"

definition builtins_used :: "string list" where
  "builtins_used = [''dict'', ''len'', ''set'', ''list'', ''str'', ''int'', ''range'',
      ''open'', ''print'', ''classmethod'', ''staticmethod'', ''None'']"

definition resolve_name :: "string \<Rightarrow> error + unit" where
  "resolve_name n =
     (if n \<in> set module_globals \<or> n \<in> set builtins_used then Inr () else Inl (NameError n))"

subsection \<open>Characters, \<^verbatim>\<open>int()\<close>, \<^verbatim>\<open>str.split\<close> and slices\<close>

text \<open>
  A character is one of the first 256 code points; among them \<^verbatim>\<open>\d\<close> matches the ten
  digits \<^verbatim>\<open>0\<close> to \<^verbatim>\<open>9\<close> only.
\<close>

definition is_digit :: "char \<Rightarrow> bool" where
  "is_digit c = (c \<in> set ''0123456789'')"

definition digit_val :: "char \<Rightarrow> int" where
  "digit_val c = of_char c - 48"

text \<open>
  \<^verbatim>\<open>int(s)\<close> on a string of decimal digits. The source calls it only on the digit runs of
  a matched token; any other string is given \<open>ValueError\<close> here. Python integers have
  no bound, but since version 3.11 the interpreter refuses to convert a decimal string of
  more than \<^verbatim>\<open>sys.get_int_max_str_digits()\<close> digits, 4300 unless changed, and raises
  ValueError; the source leaves the setting alone.
\<close>

definition int_max_str_digits :: nat where
  "int_max_str_digits = 4300"

definition decimal :: "string \<Rightarrow> int" where
  "decimal s = foldl (\<lambda>acc c. 10 * acc + digit_val c) 0 s"

definition int_py :: "string \<Rightarrow> error + int" where
  "int_py s =
     (if s \<noteq> [] \<and> list_all is_digit s \<and> length s \<le> int_max_str_digits
      then Inr (decimal s)
      else Inl ValueError)"

text \<open>\<^verbatim>\<open>s.split(sep)\<close> for a one-character separator: every occurrence cuts.\<close>

fun split_py :: "char \<Rightarrow> string \<Rightarrow> string list" where
  "split_py sep [] = [[]]"
| "split_py sep (c # cs) =
     (if c = sep then [] # split_py sep cs
      else (case split_py sep cs of
              [] \<Rightarrow> [[c]]
            | w # ws \<Rightarrow> (c # w) # ws))"

text \<open>The tuple assignment \<^verbatim>\<open>(a, b) = xs\<close> raises ValueError unless \<open>xs\<close> has two items.\<close>

fun unpack2 :: "'a list \<Rightarrow> error + ('a \<times> 'a)" where
  "unpack2 [a, b] = Inr (a, b)"
| "unpack2 _ = Inl ValueError"

text \<open>
  \<^verbatim>\<open>xs[i:j]\<close>: a negative bound counts from the end, every bound is clamped to
  \<open>0 .. len(xs)\<close>, and the slice is empty when the bounds cross. It never raises.
\<close>

definition clamp_index :: "nat \<Rightarrow> int \<Rightarrow> nat" where
  "clamp_index n i =
     (if i < 0 then (if i + int n < 0 then 0 else nat (i + int n))
      else if int n < i then n else nat i)"

definition py_slice :: "'a list \<Rightarrow> int \<Rightarrow> int \<Rightarrow> 'a list" where
  "py_slice xs i j =
     (let lo = clamp_index (length xs) i; hi = clamp_index (length xs) j
      in drop lo (take hi xs))"

text \<open>\<^verbatim>\<open>xs[i]\<close> for an index that a \<^verbatim>\<open>range\<close> produced (never negative).\<close>

definition nth_py :: "'a list \<Rightarrow> nat \<Rightarrow> error + 'a" where
  "nth_py xs i = (if i < length xs then Inr (xs ! i) else Inl IndexError)"

subsection \<open>The path grammar: \<^verbatim>\<open>re.findall("\d+:\d+\-\d+", path_string)\<close>\<close>

text \<open>
  One attempt of the pattern at the head of a string. Each \<^verbatim>\<open>\d+\<close> is greedy and takes the
  whole run of digits; giving a digit back never helps, because the pattern then wants
  \<^verbatim>\<open>:\<close>, \<^verbatim>\<open>-\<close> or nothing where a digit stands. The result is the matched text and the rest.
\<close>

definition match_token :: "string \<Rightarrow> (string \<times> string) option" where
  "match_token s =
     (let d1 = takeWhile is_digit s; r1 = dropWhile is_digit s in
      if d1 = [] then None else
      (case r1 of
         [] \<Rightarrow> None
       | c1 # r2 \<Rightarrow>
           if c1 \<noteq> CHR '':'' then None else
           (let d2 = takeWhile is_digit r2; r3 = dropWhile is_digit r2 in
            if d2 = [] then None else
            (case r3 of
               [] \<Rightarrow> None
             | c2 # r4 \<Rightarrow>
                 if c2 \<noteq> CHR ''-'' then None else
                 (let d3 = takeWhile is_digit r4; r5 = dropWhile is_digit r4 in
                  if d3 = [] then None
                  else Some (d1 @ [CHR '':''] @ d2 @ [CHR ''-''] @ d3, r5))))))"

text \<open>
  \<^verbatim>\<open>re.findall\<close>: scan from the left; where the pattern matches, keep the text and go on
  after it; elsewhere move one character on.
\<close>

function findall :: "string \<Rightarrow> string list" where
  "findall [] = []"
| "findall (c # cs) =
     (case match_token (c # cs) of
        Some (m, r) \<Rightarrow> m # findall r
      | None \<Rightarrow> findall cs)"
  by pat_completeness auto
termination
proof (relation "measure length")
  show "wf (measure length)" by simp
next
  fix c cs x2 m r
  assume "match_token (c # cs) = Some x2" "(m, r) = x2"
  then have a: "match_token (c # cs) = Some (m, r)" by simp
  have len: "\<And>xs. length (dropWhile is_digit xs) \<le> length xs"
    by (simp add: length_dropWhile_le)
  from a obtain r2 r4 where
    s1: "dropWhile is_digit (c # cs) = CHR '':'' # r2" and
    s2: "dropWhile is_digit r2 = CHR ''-'' # r4" and
    s3: "r = dropWhile is_digit r4"
    by (auto simp: match_token_def Let_def split: list.splits if_splits)
  have "length r \<le> length r4" using s3 len by simp
  also have "length r4 < length (dropWhile is_digit r2)" using s2 by simp
  also have "\<dots> \<le> length r2" by (rule len)
  also have "length r2 < length (dropWhile is_digit (c # cs))" using s1 by simp
  also have "\<dots> \<le> length (c # cs)" by (rule len)
  finally show "(r, c # cs) \<in> measure length" by simp
next
  fix c cs
  assume "match_token (c # cs) = None"
  show "(cs, c # cs) \<in> measure length" by simp
qed

subsection \<open>Nodes and the object store\<close>

text \<open>
  \<^verbatim>\<open>class Node\<close>. The class defines neither \<^verbatim>\<open>__eq__\<close> nor \<^verbatim>\<open>__hash__\<close>, so two nodes are
  the same member of a Python set exactly when they are the same object: a node is
  referred to by its address in the store.
\<close>

record Node =
  transcript_name :: string
  loc_node_id :: string
  seq :: string
  len :: nat
  prev :: "nat set"
  "next" :: "nat set"

text \<open>
  What the program can change: the objects, the class attribute \<^verbatim>\<open>Node.node_cache\<close>, the
  messages of \<^verbatim>\<open>logger.info\<close> (gene name and number of isoforms) and the matrices that
  \<^verbatim>\<open>print\<close> writes. \<^verbatim>\<open>numpy.zeros\<close> holds floats; the entries are counts, kept here as
  integers.
\<close>

record state =
  heap :: "Node list"
  node_cache :: "string \<rightharpoonup> nat"
  logged :: "(string \<times> nat) list"
  printed :: "int list list list"

text \<open>\<^verbatim>\<open>Node(transcript_name, loc_node_id, node_seq)\<close>: a new object, at a new address.\<close>

definition Node_init :: "state \<Rightarrow> string \<Rightarrow> string \<Rightarrow> string \<Rightarrow> state \<times> nat" where
  "Node_init st tn loc node_seq =
     (st\<lparr>heap := heap st @
            [\<lparr>transcript_name = tn, loc_node_id = loc, seq = node_seq,
              len = length node_seq, prev = {}, next = {}\<rparr>]\<rparr>,
      length (heap st))"

definition digit_char :: "nat \<Rightarrow> char" where
  "digit_char d = char_of (48 + d)"

function str_nat :: "nat \<Rightarrow> string" where
  "str_nat n = (if n < 10 then [digit_char n] else str_nat (n div 10) @ [digit_char (n mod 10)])"
  by pat_completeness auto
termination
  by (relation "measure id") auto

text \<open>\<^verbatim>\<open>"::".join([transcript_name, loc_node_id, str(len(node_seq))])\<close>\<close>

definition get_node_id :: "string \<Rightarrow> string \<Rightarrow> string \<Rightarrow> string" where
  "get_node_id tn loc node_seq = tn @ ''::'' @ loc @ ''::'' @ str_nat (length node_seq)"

text \<open>
  \<^verbatim>\<open>Node.get_node\<close>, lines 30 to 42, statement by statement. The body names
  \<^verbatim>\<open>get_node_id\<close>, \<^verbatim>\<open>node_cache\<close> and \<^verbatim>\<open>RuntimeException\<close> bare, so each use starts with
  the lookup of that name.
\<close>

definition get_node :: "state \<Rightarrow> string \<Rightarrow> string \<Rightarrow> string \<Rightarrow> error + (state \<times> nat)" where
  "get_node st tn loc node_seq =
     (case resolve_name ''get_node_id'' of
        Inl e \<Rightarrow> Inl e
      | Inr _ \<Rightarrow>
          (let node_id = get_node_id tn loc node_seq in
           (case resolve_name ''node_cache'' of
              Inl e \<Rightarrow> Inl e
            | Inr _ \<Rightarrow>
                (case node_cache st node_id of
                   Some node_obj \<Rightarrow>
                     if seq (heap st ! node_obj) \<noteq> node_seq
                     then (case resolve_name ''RuntimeException'' of
                             Inl e \<Rightarrow> Inl e
                           | Inr _ \<Rightarrow> Inl (Raised ''RuntimeException''))
                     else Inr (st, node_obj)
                 | None \<Rightarrow>
                     (let (st1, node_obj) = Node_init st tn loc node_seq
                      in Inr (st1\<lparr>node_cache := (node_cache st1)(node_id \<mapsto> node_obj)\<rparr>,
                              node_obj))))))"

subsection \<open>Path decoding: \<^verbatim>\<open>Node_path.__init__\<close>\<close>

record Node_path =
  path_transcript_name :: string
  node_obj_list :: "nat list"

text \<open>Lines 82 to 85: the two splits, the two tuple assignments and the two \<^verbatim>\<open>int()\<close>.\<close>

definition parse_node_descr :: "string \<Rightarrow> error + (string \<times> int \<times> int)" where
  "parse_node_descr node_descr =
     (case unpack2 (split_py CHR '':'' node_descr) of
        Inl e \<Rightarrow> Inl e
      | Inr (loc, node_coord_range) \<Rightarrow>
          (case unpack2 (split_py CHR ''-'' node_coord_range) of
             Inl e \<Rightarrow> Inl e
           | Inr (lend_s, rend_s) \<Rightarrow>
               (case int_py lend_s of
                  Inl e \<Rightarrow> Inl e
                | Inr lend \<Rightarrow>
                    (case int_py rend_s of
                       Inl e \<Rightarrow> Inl e
                     | Inr rend \<Rightarrow> Inr (loc, lend, rend)))))"

text \<open>
  The loop of lines 81 to 89. Line 87 calls the constructor \<^verbatim>\<open>Node(...)\<close>, not
  \<^verbatim>\<open>Node.get_node(...)\<close>.
\<close>

fun path_loop ::
  "state \<Rightarrow> string \<Rightarrow> string \<Rightarrow> string list \<Rightarrow> nat list \<Rightarrow> error + (state \<times> nat list)" where
  "path_loop st tn sq [] objs = Inr (st, objs)"
| "path_loop st tn sq (node_descr # rest) objs =
     (case parse_node_descr node_descr of
        Inl e \<Rightarrow> Inl e
      | Inr (loc, lend, rend) \<Rightarrow>
          (let (st1, node_obj) = Node_init st tn loc (py_slice sq lend (rend + 1))
           in path_loop st1 tn sq rest (objs @ [node_obj])))"

definition Node_path_init ::
  "state \<Rightarrow> string \<Rightarrow> string \<Rightarrow> string \<Rightarrow> error + (state \<times> Node_path)" where
  "Node_path_init st tn path_string sq =
     (case path_loop st tn sq (findall path_string) [] of
        Inl e \<Rightarrow> Inl e
      | Inr (st1, objs) \<Rightarrow>
          Inr (st1, \<lparr>path_transcript_name = tn, node_obj_list = objs\<rparr>))"

text \<open>\<^verbatim>\<open>get_path\<close> followed by \<^verbatim>\<open>get_seq\<close> on every node: the sequences of a path, in order.\<close>

definition path_seqs :: "state \<Rightarrow> Node_path \<Rightarrow> string list" where
  "path_seqs st p = map (\<lambda>r. seq (heap st ! r)) (node_obj_list p)"

subsection \<open>Node alignments\<close>

text \<open>\<^verbatim>\<open>class Node_alignment\<close>; a cell is a node or \<^verbatim>\<open>GAP = None\<close>.\<close>

record Node_alignment =
  transcript_names :: "string list"
  aligned_nodes :: "nat option list list"

definition Node_alignment_init :: Node_alignment where
  "Node_alignment_init = \<lparr>transcript_names = [], aligned_nodes = []\<rparr>"

text \<open>Lines 189 to 195: one row, filled by appending the nodes of the path in order.\<close>

definition get_single_seq_node_alignment :: "string \<Rightarrow> Node_path \<Rightarrow> Node_alignment" where
  "get_single_seq_node_alignment tn path_obj =
     Node_alignment_init
       \<lparr>transcript_names := [tn],
        aligned_nodes := [foldl (\<lambda>row node_obj. row @ [Some node_obj]) [] (node_obj_list path_obj)]\<rparr>"

text \<open>\<^verbatim>\<open>__len__\<close> and \<^verbatim>\<open>width\<close>; the latter reads \<^verbatim>\<open>self.aligned_nodes[0]\<close>.\<close>

definition len_alignment :: "Node_alignment \<Rightarrow> nat" where
  "len_alignment a = length (transcript_names a)"

definition width :: "Node_alignment \<Rightarrow> error + nat" where
  "width a = (case nth_py (aligned_nodes a) 0 of Inl e \<Rightarrow> Inl e | Inr row \<Rightarrow> Inr (length row))"

text \<open>\<^verbatim>\<open>get_node_set\<close>, lines 221 to 232: the inner and the outer loop.\<close>

fun node_set_row ::
  "nat option list list \<Rightarrow> nat \<Rightarrow> nat list \<Rightarrow> nat set \<Rightarrow> error + nat set" where
  "node_set_row rows align_num [] node_set = Inr node_set"
| "node_set_row rows align_num (align_pos # rest) node_set =
     (case nth_py rows align_num of
        Inl e \<Rightarrow> Inl e
      | Inr row \<Rightarrow>
          (case nth_py row align_pos of
             Inl e \<Rightarrow> Inl e
           | Inr node_obj \<Rightarrow>
               node_set_row rows align_num rest
                 (case node_obj of None \<Rightarrow> node_set | Some n \<Rightarrow> insert n node_set)))"

fun node_set_rows ::
  "nat option list list \<Rightarrow> nat list \<Rightarrow> nat \<Rightarrow> nat set \<Rightarrow> error + nat set" where
  "node_set_rows rows [] alignment_width node_set = Inr node_set"
| "node_set_rows rows (align_num # rest) alignment_width node_set =
     (case node_set_row rows align_num [0 ..< alignment_width] node_set of
        Inl e \<Rightarrow> Inl e
      | Inr node_set1 \<Rightarrow> node_set_rows rows rest alignment_width node_set1)"

definition get_node_set :: "Node_alignment \<Rightarrow> error + nat set" where
  "get_node_set align_obj =
     (let num_trans = len_alignment align_obj in
      case width align_obj of
        Inl e \<Rightarrow> Inl e
      | Inr alignment_width \<Rightarrow>
          node_set_rows (aligned_nodes align_obj) [0 ..< num_trans] alignment_width {})"

text \<open>\<^verbatim>\<open>get_node_loc_ids\<close>: the set of the \<^verbatim>\<open>get_loc_id()\<close> of the nodes of a set.\<close>

definition get_node_loc_ids :: "Node list \<Rightarrow> nat set \<Rightarrow> string set" where
  "get_node_loc_ids h node_set = (\<lambda>n. loc_node_id (h ! n)) ` node_set"

text \<open>
  \<^verbatim>\<open>compute_number_common_nodes\<close> returns the set \<^verbatim>\<open>common_nodes\<close> (the caller takes its
  \<^verbatim>\<open>len\<close>).
\<close>

definition compute_number_common_nodes ::
  "Node list \<Rightarrow> Node_alignment \<Rightarrow> Node_alignment \<Rightarrow> error + string set" where
  "compute_number_common_nodes h align_A align_B =
     (case get_node_set align_A of
        Inl e \<Rightarrow> Inl e
      | Inr node_set_a \<Rightarrow>
          (case get_node_set align_B of
             Inl e \<Rightarrow> Inl e
           | Inr node_set_b \<Rightarrow>
               Inr (get_node_loc_ids h node_set_a \<inter> get_node_loc_ids h node_set_b)))"

subsection \<open>The similarity matrix\<close>

text \<open>\<^verbatim>\<open>sim_matrix[i][j] = v\<close>; the loops only use indices inside the matrix.\<close>

definition set_cell :: "int list list \<Rightarrow> nat \<Rightarrow> nat \<Rightarrow> int \<Rightarrow> int list list" where
  "set_cell m i j v = m[i := (m ! i)[j := v]]"

text \<open>
  Lines 287 to 294, the loop over \<open>j\<close>, and lines 285 to 294, the loop over \<open>i\<close>.
  \<^verbatim>\<open>alignments_list[i]\<close> and \<^verbatim>\<open>alignments_list[j]\<close> are read at indices below
  \<^verbatim>\<open>num_alignments\<close> only.
\<close>

fun sim_inner ::
  "Node list \<Rightarrow> Node_alignment list \<Rightarrow> nat \<Rightarrow> nat list \<Rightarrow> int list list \<Rightarrow>
   error + int list list" where
  "sim_inner h alignments_list i [] sim_matrix = Inr sim_matrix"
| "sim_inner h alignments_list i (j # rest) sim_matrix =
     (case compute_number_common_nodes h (alignments_list ! i) (alignments_list ! j) of
        Inl e \<Rightarrow> Inl e
      | Inr common_nodes \<Rightarrow>
          (let num_common_nodes = int (card common_nodes)
           in sim_inner h alignments_list i rest
                (set_cell (set_cell sim_matrix i j num_common_nodes) j i num_common_nodes)))"

fun sim_outer ::
  "Node list \<Rightarrow> Node_alignment list \<Rightarrow> nat \<Rightarrow> nat list \<Rightarrow> int list list \<Rightarrow>
   error + int list list" where
  "sim_outer h alignments_list num_alignments [] sim_matrix = Inr sim_matrix"
| "sim_outer h alignments_list num_alignments (i # rest) sim_matrix =
     (case sim_inner h alignments_list i [i + 1 ..< num_alignments] sim_matrix of
        Inl e \<Rightarrow> Inl e
      | Inr sim_matrix1 \<Rightarrow> sim_outer h alignments_list num_alignments rest sim_matrix1)"

definition compute_similarity_matrix ::
  "Node list \<Rightarrow> Node_alignment list \<Rightarrow> error + int list list" where
  "compute_similarity_matrix h alignments_list =
     (let num_alignments = length alignments_list;
          sim_matrix = replicate num_alignments (replicate num_alignments 0)
      in sim_outer h alignments_list num_alignments [0 ..< num_alignments - 1] sim_matrix)"

subsection \<open>\<^verbatim>\<open>Gene_splice_modeler.__init__\<close>\<close>

record Gene_splice_modeler =
  alignments :: "Node_alignment list"

definition Gene_splice_modeler_init ::
  "state \<Rightarrow> Node_path list \<Rightarrow> error + (state \<times> Gene_splice_modeler)" where
  "Gene_splice_modeler_init st node_path_obj_list =
     (let als = map (\<lambda>node_path_obj.
                   get_single_seq_node_alignment (path_transcript_name node_path_obj) node_path_obj)
                 node_path_obj_list
      in case compute_similarity_matrix (heap st) als of
           Inl e \<Rightarrow> Inl e
         | Inr similarity_matrix \<Rightarrow>
             Inr (st\<lparr>printed := printed st @ [similarity_matrix]\<rparr>, \<lparr>alignments = als\<rparr>))"

subsection \<open>\<^verbatim>\<open>Trinity_fasta_parser.add_trinity_seq_entry\<close>\<close>

text \<open>
  \<^verbatim>\<open>raise X(...)\<close> first looks \<^verbatim>\<open>X\<close> up. The source raises \<^verbatim>\<open>RuntimeException\<close> (lines 36, 152
  and 164) and \<^verbatim>\<open>RuntimeExcpetion\<close> (line 157), neither of which is defined.
\<close>

definition raise_named :: "string \<Rightarrow> error + 'a" where
  "raise_named n = (case resolve_name n of Inl e \<Rightarrow> Inl e | Inr _ \<Rightarrow> Inl (Raised n))"

text \<open>
  White space for \<^verbatim>\<open>\S\<close>: the characters with \<^verbatim>\<open>str.isspace\<close> among the first 256 code
  points (tab to carriage return, the four separators 28 to 31, the space, 133 and 160).
\<close>

definition is_space :: "char \<Rightarrow> bool" where
  "is_space c = (of_char c \<in> set [9, 10, 11, 12, 13, 28, 29, 30, 31, 32, 133, 160 :: nat])"

text \<open>\<^verbatim>\<open>re.search("^>(\S+)", header)\<close> and its group 1.\<close>

definition search_accession :: "string \<Rightarrow> string option" where
  "search_accession header =
     (case header of
        [] \<Rightarrow> None
      | c # rest \<Rightarrow>
          if c \<noteq> CHR ''>'' then None
          else (let acc = takeWhile (\<lambda>x. \<not> is_space x) rest
                in if acc = [] then None else Some acc))"

text \<open>
  \<^verbatim>\<open>re.search("path=\[([^\]]+)\]", header)\<close> and its group 1: the leftmost \<^verbatim>\<open>path=[\<close> that
  is followed by at least one character other than \<^verbatim>\<open>]\<close> and then by \<^verbatim>\<open>]\<close>.
\<close>

definition match_path_at :: "string \<Rightarrow> string option" where
  "match_path_at s =
     (if take 6 s = ''path=[''
      then (let body = takeWhile (\<lambda>x. x \<noteq> CHR '']'') (drop 6 s);
                rest = dropWhile (\<lambda>x. x \<noteq> CHR '']'') (drop 6 s)
            in if body \<noteq> [] \<and> rest \<noteq> [] then Some body else None)
      else None)"

fun search_path :: "string \<Rightarrow> string option" where
  "search_path [] = None"
| "search_path (c # cs) =
     (case match_path_at (c # cs) of
        Some body \<Rightarrow> Some body
      | None \<Rightarrow> search_path cs)"

text \<open>
  \<^verbatim>\<open>re.sub("_i\d+$", "", accession)\<close>. One attempt of the pattern at the head of a string
  gives what follows the match; \<^verbatim>\<open>$\<close> holds at the end of the string and before a newline
  that ends it. After a match only that rest is left to scan, and it cannot match again.
\<close>

definition match_isoform_suffix :: "string \<Rightarrow> string option" where
  "match_isoform_suffix s =
     (if take 2 s = ''_i''
      then (let d = takeWhile is_digit (drop 2 s); r = dropWhile is_digit (drop 2 s)
            in if d \<noteq> [] \<and> (r = [] \<or> r = [CHR 0x0A]) then Some r else None)
      else None)"

fun sub_isoform_suffix :: "string \<Rightarrow> string" where
  "sub_isoform_suffix [] = []"
| "sub_isoform_suffix (c # cs) =
     (case match_isoform_suffix (c # cs) of
        Some r \<Rightarrow> r
      | None \<Rightarrow> c # sub_isoform_suffix cs)"

text \<open>The record that lines 168 to 170 build, and \<^verbatim>\<open>defaultdict(list)\<close> with its append.\<close>

record iso_struct =
  iso_transcript_name :: string
  iso_path :: string
  iso_seq :: string

fun dict_append :: "(string \<times> 'v list) list \<Rightarrow> string \<Rightarrow> 'v \<Rightarrow> (string \<times> 'v list) list" where
  "dict_append [] k v = [(k, [v])]"
| "dict_append ((k1, vs) # rest) k v =
     (if k1 = k then (k1, vs @ [v]) # rest else (k1, vs) # dict_append rest k v)"

definition add_trinity_seq_entry ::
  "(string \<times> iso_struct list) list \<Rightarrow> string \<Rightarrow> string \<Rightarrow>
   error + (string \<times> iso_struct list) list" where
  "add_trinity_seq_entry trinity_gene_to_isoform_seqs header sequence =
     (case search_accession header of
        None \<Rightarrow> raise_named ''RuntimeException''
      | Some accession \<Rightarrow>
          (case search_path header of
             None \<Rightarrow> raise_named ''RuntimeExcpetion''
           | Some path_str \<Rightarrow>
               (let gene_id = sub_isoform_suffix accession in
                if gene_id = accession then raise_named ''RuntimeException''
                else Inr (dict_append trinity_gene_to_isoform_seqs gene_id
                            \<lparr>iso_transcript_name = accession, iso_path = path_str,
                             iso_seq = sequence\<rparr>))))"

subsection \<open>The driver: \<^verbatim>\<open>main\<close>, lines 322 to 339\<close>

text \<open>Lines 330 to 333: one \<^verbatim>\<open>Node_path\<close> per isoform, in order.\<close>

fun decode_isoforms ::
  "state \<Rightarrow> iso_struct list \<Rightarrow> Node_path list \<Rightarrow> error + (state \<times> Node_path list)" where
  "decode_isoforms st [] node_path_obj_list = Inr (st, node_path_obj_list)"
| "decode_isoforms st (iso_struct # rest) node_path_obj_list =
     (case Node_path_init st (iso_transcript_name iso_struct) (iso_path iso_struct)
             (iso_seq iso_struct) of
        Inl e \<Rightarrow> Inl e
      | Inr (st1, n_path) \<Rightarrow> decode_isoforms st1 rest (node_path_obj_list @ [n_path]))"

text \<open>One turn of the loop over the genes; \<^verbatim>\<open>continue\<close> leaves the state as it is.\<close>

definition process_gene :: "state \<Rightarrow> string \<times> iso_struct list \<Rightarrow> error + state" where
  "process_gene st entry =
     (let gene_name = fst entry; iso_struct_list = snd entry in
      if length iso_struct_list < 2 then Inr st
      else (case decode_isoforms st iso_struct_list [] of
              Inl e \<Rightarrow> Inl e
            | Inr (st1, node_path_obj_list) \<Rightarrow>
                (let st2 = st1\<lparr>logged := logged st1 @ [(gene_name, length node_path_obj_list)]\<rparr>
                 in case Gene_splice_modeler_init st2 node_path_obj_list of
                      Inl e \<Rightarrow> Inl e
                    | Inr (st3, gene_splice_modeler) \<Rightarrow> Inr st3)))"

fun main_loop :: "state \<Rightarrow> (string \<times> iso_struct list) list \<Rightarrow> error + state" where
  "main_loop st [] = Inr st"
| "main_loop st (entry # rest) =
     (case process_gene st entry of
        Inl e \<Rightarrow> Inl e
      | Inr st1 \<Rightarrow> main_loop st1 rest)"

subsection \<open>The grammar and the coordinate ranges, as the specification words them\<close>

text \<open>A token is \<open>LOC ":" START "-" END\<close>, each of the three a non-empty string of digits.\<close>

definition digits :: "string \<Rightarrow> bool" where
  "digits s = (s \<noteq> [] \<and> list_all is_digit s)"

definition is_token :: "string \<Rightarrow> bool" where
  "is_token t = (\<exists>loc st en. digits loc \<and> digits st \<and> digits en \<and>
                   t = loc @ '':'' @ st @ ''-'' @ en)"

definition has_token :: "string \<Rightarrow> bool" where
  "has_token s = (\<exists>pre t post. s = pre @ t @ post \<and> is_token t)"

text \<open>
  The three parts of a token, as written and as numbers, and the tokens whose \<open>START\<close>
  and \<open>END\<close> are written with no more digits than \<^verbatim>\<open>int()\<close> converts.
\<close>

definition token_loc :: "string \<Rightarrow> string" where
  "token_loc t = takeWhile (\<lambda>c. c \<noteq> CHR '':'') t"

definition token_start_str :: "string \<Rightarrow> string" where
  "token_start_str t =
     takeWhile (\<lambda>c. c \<noteq> CHR ''-'') (drop 1 (dropWhile (\<lambda>c. c \<noteq> CHR '':'') t))"

definition token_end_str :: "string \<Rightarrow> string" where
  "token_end_str t = drop 1 (dropWhile (\<lambda>c. c \<noteq> CHR ''-'') t)"

definition token_start :: "string \<Rightarrow> int" where
  "token_start t = decimal (token_start_str t)"

definition token_end :: "string \<Rightarrow> int" where
  "token_end t = decimal (token_end_str t)"

definition within_digit_limit :: "string \<Rightarrow> bool" where
  "within_digit_limit t =
     (length (token_start_str t) \<le> int_max_str_digits \<and>
      length (token_end_str t) \<le> int_max_str_digits)"

definition decodable_path :: "string \<Rightarrow> bool" where
  "decodable_path ps = list_all within_digit_limit (findall ps)"

text \<open>The characters of \<open>s\<close> at the positions \<open>START .. END\<close>, \<open>END\<close> included.\<close>

definition chars_between :: "string \<Rightarrow> int \<Rightarrow> int \<Rightarrow> string" where
  "chars_between s a b = map (\<lambda>k. s ! k) [nat a ..< nat (b + 1)]"

definition token_range :: "string \<Rightarrow> string \<Rightarrow> string" where
  "token_range s t = chars_between s (token_start t) (token_end t)"

text \<open>The node that line 87 builds for one token.\<close>

definition node_of_token :: "string \<Rightarrow> string \<Rightarrow> string \<Rightarrow> Node" where
  "node_of_token tn sq t =
     \<lparr>transcript_name = tn, loc_node_id = token_loc t,
      seq = py_slice sq (token_start t) (token_end t + 1),
      len = length (py_slice sq (token_start t) (token_end t + 1)), prev = {}, next = {}\<rparr>"

text \<open>
  Tokens whose \<open>END\<close>, or whose \<open>START\<close>, is written with \<open>n\<close> zeros in front: \<open>1:0-0\<dots>03\<close>
  and \<open>5:0\<dots>010-3\<close>.
\<close>

definition end_padded :: "nat \<Rightarrow> string" where
  "end_padded n = ''1:0-'' @ replicate n CHR ''0'' @ ''3''"

definition start_padded :: "nat \<Rightarrow> string" where
  "start_padded n = ''5:'' @ replicate n CHR ''0'' @ ''10-3''"

text \<open>The state at start-up: no object yet, and \<^verbatim>\<open>node_cache = dict()\<close>.\<close>

definition st0 :: state where
  "st0 = \<lparr>heap = [], node_cache = Map.empty, logged = [], printed = []\<rparr>"

subsection \<open>Shapes and validity, as the specification words them\<close>

text \<open>An \<open>n\<close> by \<open>n\<close> matrix.\<close>

definition square :: "nat \<Rightarrow> int list list \<Rightarrow> bool" where
  "square n m = (length m = n \<and> list_all (\<lambda>row. length row = n) m)"

text \<open>
  A valid alignment: at least one row, one row per transcript, every row as wide as
  row 0. The locus ids of the nodes of a path.
\<close>

definition valid_alignment :: "Node_alignment \<Rightarrow> bool" where
  "valid_alignment a =
     (aligned_nodes a \<noteq> [] \<and>
      length (aligned_nodes a) = length (transcript_names a) \<and>
      list_all (\<lambda>row. length row = length (hd (aligned_nodes a))) (aligned_nodes a))"

definition path_loc_ids :: "Node list \<Rightarrow> Node_path \<Rightarrow> string set" where
  "path_loc_ids h p = set (map (\<lambda>n. loc_node_id (h ! n)) (node_obj_list p))"

subsection \<open>The two-isoform example\<close>

text \<open>
  Gene \<open>G\<close> with isoform A (path \<^verbatim>\<open>1:0-9 2:10-19\<close>) and isoform B (path
  \<^verbatim>\<open>1:0-9 3:10-19\<close>), twenty bases each, the first ten shared; the store and the paths
  that decoding them gives; and a gene \<open>H\<close> with a single isoform, whose path
  annotation \<^verbatim>\<open>int()\<close> would refuse.
\<close>

definition example_A :: iso_struct where
  "example_A = \<lparr>iso_transcript_name = ''G_i1'', iso_path = ''1:0-9 2:10-19'',
                 iso_seq = ''ACGTACGTACAAAAAAAAAA''\<rparr>"

definition example_B :: iso_struct where
  "example_B = \<lparr>iso_transcript_name = ''G_i2'', iso_path = ''1:0-9 3:10-19'',
                 iso_seq = ''ACGTACGTACCCCCCCCCCC''\<rparr>"

definition example_heap :: "Node list" where
  "example_heap =
     [\<lparr>transcript_name = ''G_i1'', loc_node_id = ''1'', seq = ''ACGTACGTAC'', len = 10,
       prev = {}, next = {}\<rparr>,
      \<lparr>transcript_name = ''G_i1'', loc_node_id = ''2'', seq = ''AAAAAAAAAA'', len = 10,
       prev = {}, next = {}\<rparr>,
      \<lparr>transcript_name = ''G_i2'', loc_node_id = ''1'', seq = ''ACGTACGTAC'', len = 10,
       prev = {}, next = {}\<rparr>,
      \<lparr>transcript_name = ''G_i2'', loc_node_id = ''3'', seq = ''CCCCCCCCCC'', len = 10,
       prev = {}, next = {}\<rparr>]"

definition example_paths :: "Node_path list" where
  "example_paths =
     [\<lparr>path_transcript_name = ''G_i1'', node_obj_list = [0, 1]\<rparr>,
      \<lparr>path_transcript_name = ''G_i2'', node_obj_list = [2, 3]\<rparr>]"

definition example_C :: iso_struct where
  "example_C = \<lparr>iso_transcript_name = ''H_i1'', iso_path = end_padded 4300,
                 iso_seq = ''ACGT''\<rparr>"

definition example_st :: state where
  "example_st = st0\<lparr>heap := example_heap\<rparr>"

definition example_alignments :: "Node_alignment list" where
  "example_alignments =
     map (\<lambda>p. get_single_seq_node_alignment (path_transcript_name p) p) example_paths"

section \<open>Properties\<close>

subsection \<open>Tokens and decoding\<close>

lemma digits_split:
  "digits d \<Longrightarrow> takeWhile is_digit (d @ r) = d @ takeWhile is_digit r"
  by (simp add: digits_def list_all_iff takeWhile_append2)

lemma match_token_Some:
  assumes "match_token s = Some (m, r)"
  shows "s = m @ r \<and> is_token m"
proof -
  from assms obtain r2 r4 where
    s1: "dropWhile is_digit s = CHR '':'' # r2" and d1: "takeWhile is_digit s \<noteq> []" and
    s2: "dropWhile is_digit r2 = CHR ''-'' # r4" and d2: "takeWhile is_digit r2 \<noteq> []" and
    s3: "r = dropWhile is_digit r4" and d3: "takeWhile is_digit r4 \<noteq> []" and
    m: "m = takeWhile is_digit s @ [CHR '':''] @ takeWhile is_digit r2 @ [CHR ''-''] @ takeWhile is_digit r4"
    by (auto simp: match_token_def Let_def split: list.splits if_splits)
  have tw: "\<And>xs. list_all is_digit (takeWhile is_digit xs)"
    by (simp add: list_all_iff) (meson set_takeWhileD)
  have "s = takeWhile is_digit s @ dropWhile is_digit s" by simp
  also have "\<dots> = takeWhile is_digit s @ CHR '':'' # (takeWhile is_digit r2 @ dropWhile is_digit r2)"
    using s1 by simp
  also have "\<dots> = takeWhile is_digit s @ CHR '':'' # (takeWhile is_digit r2 @ CHR ''-'' # (takeWhile is_digit r4 @ dropWhile is_digit r4))"
    using s2 by simp
  finally have "s = m @ r" using m s3 by simp
  moreover have "is_token m"
    unfolding is_token_def digits_def using d1 d2 d3 tw m by auto
  ultimately show ?thesis by simp
qed

lemma findall_tokens:
  "t \<in> set (findall s) \<Longrightarrow> is_token t \<and> (\<exists>pre post. s = pre @ t @ post)"
proof (induction s rule: findall.induct)
  case 1
  then show ?case by simp
next
  case (2 c cs)
  show ?case
  proof (cases "match_token (c # cs)")
    case None
    with 2 have "is_token t \<and> (\<exists>pre post. cs = pre @ t @ post)" by simp
    then obtain pre post where "is_token t" "cs = pre @ t @ post" by blast
    then have "c # cs = (c # pre) @ t @ post" by simp
    with \<open>is_token t\<close> show ?thesis by blast
  next
    case (Some mr)
    obtain m r where mr: "mr = (m, r)" by (cases mr)
    from Some mr have ms: "c # cs = m @ r" "is_token m"
      using match_token_Some by blast+
    from 2(3) Some mr have "t = m \<or> t \<in> set (findall r)" by simp
    then show ?thesis
    proof
      assume "t = m"
      with ms have "c # cs = [] @ t @ r" by simp
      with ms \<open>t = m\<close> show ?thesis by blast
    next
      assume "t \<in> set (findall r)"
      with 2(2)[OF Some mr[symmetric]] have "is_token t \<and> (\<exists>pre post. r = pre @ t @ post)" by simp
      then obtain pre post where "is_token t" "r = pre @ t @ post" by blast
      with ms have "c # cs = (m @ pre) @ t @ post" by simp
      with \<open>is_token t\<close> show ?thesis by blast
    qed
  qed
qed

lemma split_py_no_sep:
  "sep \<notin> set s \<Longrightarrow> split_py sep s = [s]"
  by (induction s) auto

lemma split_py_append:
  "sep \<notin> set a \<Longrightarrow> split_py sep (a @ sep # b) = a # split_py sep b"
  by (induction a) (auto split: list.splits)

lemma is_digit_not_colon: "is_digit c \<Longrightarrow> c \<noteq> CHR '':''"
  by (auto simp: is_digit_def)

lemma is_digit_not_dash: "is_digit c \<Longrightarrow> c \<noteq> CHR ''-''"
  by (auto simp: is_digit_def)

lemma digits_no_colon: "digits d \<Longrightarrow> CHR '':'' \<notin> set d"
  using is_digit_not_colon by (auto simp: digits_def list_all_iff)

lemma digits_no_dash: "digits d \<Longrightarrow> CHR ''-'' \<notin> set d"
  using is_digit_not_dash by (auto simp: digits_def list_all_iff)

lemma digit_val_nonneg: "is_digit c \<Longrightarrow> 0 \<le> digit_val c"
  unfolding is_digit_def digit_val_def by (elim disjE | simp)+

lemma foldl_digits_nonneg:
  "list_all is_digit s \<Longrightarrow> 0 \<le> acc \<Longrightarrow> 0 \<le> foldl (\<lambda>acc c. 10 * acc + digit_val c) acc s"
  by (induction s arbitrary: acc) (auto simp: digit_val_nonneg)

lemma decimal_nonneg: "digits d \<Longrightarrow> 0 \<le> decimal d"
  by (simp add: decimal_def digits_def foldl_digits_nonneg)

lemma int_py_digits:
  "digits d \<Longrightarrow> length d \<le> int_max_str_digits \<Longrightarrow> int_py d = Inr (decimal d)"
  by (simp add: int_py_def digits_def)

lemma int_py_too_long:
  "int_max_str_digits < length d \<Longrightarrow> int_py d = Inl ValueError"
  by (simp add: int_py_def)

lemma takeWhile_digits: "list_all is_digit d \<Longrightarrow> takeWhile is_digit d = d"
  by (simp add: list_all_iff)

lemma dropWhile_digits: "list_all is_digit d \<Longrightarrow> dropWhile is_digit d = []"
  by (simp add: list_all_iff)

lemma token_parts:
  assumes "digits loc" "digits st" "digits en"
  shows "token_loc (loc @ CHR '':'' # st @ CHR ''-'' # en) = loc"
    and "token_start_str (loc @ CHR '':'' # st @ CHR ''-'' # en) = st"
    and "token_end_str (loc @ CHR '':'' # st @ CHR ''-'' # en) = en"
proof -
  have c: "\<forall>x \<in> set loc. x \<noteq> CHR '':''" using digits_no_colon[OF assms(1)] by auto
  have d1: "\<forall>x \<in> set loc. x \<noteq> CHR ''-''" using digits_no_dash[OF assms(1)] by auto
  have d2: "\<forall>x \<in> set st. x \<noteq> CHR ''-''" using digits_no_dash[OF assms(2)] by auto
  show "token_loc (loc @ CHR '':'' # st @ CHR ''-'' # en) = loc"
    using c by (simp add: token_loc_def)
  show "token_start_str (loc @ CHR '':'' # st @ CHR ''-'' # en) = st"
    using c d2 by (simp add: token_start_str_def)
  have "dropWhile (\<lambda>c. c \<noteq> CHR ''-'') (loc @ CHR '':'' # st @ CHR ''-'' # en) = CHR ''-'' # en"
    using d1 d2 by simp
  then show "token_end_str (loc @ CHR '':'' # st @ CHR ''-'' # en) = en"
    by (simp add: token_end_str_def)
qed

lemma split_token:
  assumes "digits loc" "digits st" "digits en"
  shows "unpack2 (split_py CHR '':'' (loc @ CHR '':'' # st @ CHR ''-'' # en)) =
           Inr (loc, st @ CHR ''-'' # en)"
    and "unpack2 (split_py CHR ''-'' (st @ CHR ''-'' # en)) = Inr (st, en)"
proof -
  have c1: "CHR '':'' \<notin> set loc" using assms(1) by (rule digits_no_colon)
  have c2: "CHR '':'' \<notin> set (st @ CHR ''-'' # en)"
    using digits_no_colon[OF assms(2)] digits_no_colon[OF assms(3)] by simp
  have "split_py CHR '':'' (loc @ CHR '':'' # st @ CHR ''-'' # en) =
          loc # split_py CHR '':'' (st @ CHR ''-'' # en)"
    using c1 by (rule split_py_append)
  also have "split_py CHR '':'' (st @ CHR ''-'' # en) = [st @ CHR ''-'' # en]"
    using c2 by (rule split_py_no_sep)
  finally show "unpack2 (split_py CHR '':'' (loc @ CHR '':'' # st @ CHR ''-'' # en)) =
      Inr (loc, st @ CHR ''-'' # en)" by simp
  have "split_py CHR ''-'' (st @ CHR ''-'' # en) = st # split_py CHR ''-'' en"
    using digits_no_dash[OF assms(2)] by (rule split_py_append)
  also have "split_py CHR ''-'' en = [en]"
    using digits_no_dash[OF assms(3)] by (rule split_py_no_sep)
  finally show "unpack2 (split_py CHR ''-'' (st @ CHR ''-'' # en)) = Inr (st, en)" by simp
qed

lemma token_nonneg:
  assumes "is_token t"
  shows "0 \<le> token_start t" and "0 \<le> token_end t"
proof -
  from assms obtain loc st en where
    d: "digits loc" "digits st" "digits en" and t: "t = loc @ CHR '':'' # st @ CHR ''-'' # en"
    by (auto simp: is_token_def)
  show "0 \<le> token_start t" "0 \<le> token_end t"
    unfolding token_start_def token_end_def t token_parts[OF d]
    using d by (simp_all add: decimal_nonneg)
qed

lemma parse_token:
  assumes "is_token t" "within_digit_limit t"
  shows "parse_node_descr t = Inr (token_loc t, token_start t, token_end t)"
proof -
  from assms(1) obtain loc st en where
    d: "digits loc" "digits st" "digits en" and t: "t = loc @ CHR '':'' # st @ CHR ''-'' # en"
    by (auto simp: is_token_def)
  note parts = token_parts[OF d, folded t]
  have l: "length st \<le> int_max_str_digits" "length en \<le> int_max_str_digits"
    using assms(2) by (simp_all add: within_digit_limit_def parts)
  have a: "int_py st = Inr (token_start t)"
    using int_py_digits[OF d(2) l(1)] by (simp add: token_start_def parts)
  have b: "int_py en = Inr (token_end t)"
    using int_py_digits[OF d(3) l(2)] by (simp add: token_end_def parts)
  show ?thesis
    unfolding parse_node_descr_def t split_token(1)[OF d]
    using split_token(2)[OF d] a b parts(1) by (simp add: t)
qed

lemma parse_token_over_limit:
  assumes "is_token t" "\<not> within_digit_limit t"
  shows "parse_node_descr t = Inl ValueError"
proof -
  from assms(1) obtain loc st en where
    d: "digits loc" "digits st" "digits en" and t: "t = loc @ CHR '':'' # st @ CHR ''-'' # en"
    by (auto simp: is_token_def)
  note parts = token_parts[OF d, folded t]
  from assms(2) have l: "int_max_str_digits < length st \<or> int_max_str_digits < length en"
    by (auto simp: within_digit_limit_def parts)
  have "int_py st = Inl ValueError \<or>
             (\<exists>a. int_py st = Inr a) \<and> int_py en = Inl ValueError"
  proof (cases "int_max_str_digits < length st")
    case True
    then show ?thesis by (simp add: int_py_too_long)
  next
    case False
    with l have "int_py en = Inl ValueError" by (simp add: int_py_too_long)
    moreover have "int_py st = Inr (decimal st)" using False d(2) by (simp add: int_py_digits)
    ultimately show ?thesis by simp
  qed
  then show ?thesis
    unfolding parse_node_descr_def t split_token(1)[OF d]
    using split_token(2)[OF d] by auto
qed

lemma path_loop_result:
  "\<forall>t \<in> set toks. is_token t \<and> within_digit_limit t \<Longrightarrow>
   path_loop st tn sq toks objs =
     Inr (st\<lparr>heap := heap st @ map (node_of_token tn sq) toks\<rparr>,
          objs @ [length (heap st) ..< length (heap st) + length toks])"
proof (induction toks arbitrary: st objs)
  case Nil
  then show ?case by simp
next
  case (Cons t toks)
  from Cons.prems have "is_token t" "within_digit_limit t" by simp_all
  then have p: "parse_node_descr t = Inr (token_loc t, token_start t, token_end t)"
    by (rule parse_token)
  let ?st1 = "fst (Node_init st tn (token_loc t) (py_slice sq (token_start t) (token_end t + 1)))"
  have h1: "heap ?st1 = heap st @ [node_of_token tn sq t]"
    by (simp add: Node_init_def node_of_token_def)
  have toks: "\<forall>t \<in> set toks. is_token t \<and> within_digit_limit t" using Cons.prems by simp
  have "path_loop st tn sq (t # toks) objs =
        path_loop ?st1 tn sq toks (objs @ [length (heap st)])"
    by (simp add: p Node_init_def)
  also have "\<dots> = Inr (?st1\<lparr>heap := heap ?st1 @ map (node_of_token tn sq) toks\<rparr>,
          (objs @ [length (heap st)]) @ [length (heap ?st1) ..< length (heap ?st1) + length toks])"
    by (rule Cons.IH[OF toks])
  also have "\<dots> = Inr (st\<lparr>heap := heap st @ map (node_of_token tn sq) (t # toks)\<rparr>,
          objs @ [length (heap st) ..< length (heap st) + length (t # toks)])"
  proof -
    have "[length (heap st) ..< length (heap st) + length (t # toks)] =
          length (heap st) # [length (heap ?st1) ..< length (heap ?st1) + length toks]"
      using h1 by (simp del: upt_Suc add: upt_conv_Cons)
    then show ?thesis using h1 by (simp add: Node_init_def)
  qed
  finally show ?case .
qed

lemma Node_path_init_result:
  assumes "decodable_path ps"
  shows "Node_path_init st tn ps sq =
     Inr (st\<lparr>heap := heap st @ map (node_of_token tn sq) (findall ps)\<rparr>,
          \<lparr>path_transcript_name = tn,
           node_obj_list = [length (heap st) ..< length (heap st) + length (findall ps)]\<rparr>)"
proof -
  have "\<forall>t \<in> set (findall ps). is_token t \<and> within_digit_limit t"
    using findall_tokens assms by (auto simp: decodable_path_def list_all_iff)
  from path_loop_result[OF this, of st tn sq "[]"] show ?thesis
    by (simp add: Node_path_init_def)
qed

lemma path_seqs_decoded:
  assumes "decodable_path ps" "Node_path_init st tn ps sq = Inr (st1, p)"
  shows "path_seqs st1 p = map (\<lambda>t. seq (node_of_token tn sq t)) (findall ps)"
proof -
  let ?n = "length (heap st)" and ?toks = "findall ps"
  from assms(2) have h: "heap st1 = heap st @ map (node_of_token tn sq) ?toks"
    and o: "node_obj_list p = [?n ..< ?n + length ?toks]"
    by (auto simp: Node_path_init_result[OF assms(1)])
  show ?thesis
  proof (rule nth_equalityI)
    show "length (path_seqs st1 p) = length (map (\<lambda>t. seq (node_of_token tn sq t)) ?toks)"
      by (simp add: path_seqs_def o)
  next
    fix k assume "k < length (path_seqs st1 p)"
    then have k: "k < length ?toks" by (simp add: path_seqs_def o)
    then have "node_obj_list p ! k = ?n + k" by (simp add: o)
    then have "heap st1 ! (node_obj_list p ! k) = node_of_token tn sq (?toks ! k)"
      using k by (simp add: h nth_append)
    then show "path_seqs st1 p ! k = map (\<lambda>t. seq (node_of_token tn sq t)) ?toks ! k"
      using k by (simp add: path_seqs_def o)
  qed
qed

lemma drop_take_nth:
  "m \<le> length xs \<Longrightarrow> drop n (take m xs) = map (\<lambda>k. xs ! k) [n ..< m]"
  by (rule nth_equalityI) auto

lemma py_slice_in_range:
  assumes "0 \<le> a" "0 \<le> b" "b < int (length xs)"
  shows "py_slice xs a (b + 1) = map (\<lambda>k. xs ! k) [nat a ..< nat (b + 1)]"
proof -
  have hi: "clamp_index (length xs) (b + 1) = nat (b + 1)"
    using assms by (simp add: clamp_index_def)
  have le: "nat (b + 1) \<le> length xs" using assms by linarith
  have "a \<le> int (length xs) \<or> int (length xs) < a" by linarith
  then show ?thesis
  proof
    assume "a \<le> int (length xs)"
    then have lo: "clamp_index (length xs) a = nat a"
      using assms by (simp add: clamp_index_def)
    have "drop (nat a) (take (nat (b + 1)) xs) = map (\<lambda>k. xs ! k) [nat a ..< nat (b + 1)]"
      using le by (rule drop_take_nth)
    then show ?thesis by (simp add: py_slice_def lo hi)
  next
    assume big: "int (length xs) < a"
    then have lo: "clamp_index (length xs) a = length xs"
      using assms by (simp add: clamp_index_def)
    have "nat (b + 1) \<le> nat a" using big assms by linarith
    then show ?thesis using le by (simp add: py_slice_def lo hi)
  qed
qed

lemma py_slice_reversed:
  assumes "0 \<le> a" "0 \<le> b" "b + 1 \<le> a"
  shows "py_slice xs a (b + 1) = []"
proof -
  have "clamp_index (length xs) (b + 1) \<le> clamp_index (length xs) a"
    using assms by (auto simp: clamp_index_def)
  then show ?thesis by (simp add: py_slice_def)
qed

lemma token_node_seq:
  assumes "is_token t" "token_end t < int (length sq)"
  shows "seq (node_of_token tn sq t) = token_range sq t"
proof -
  have "py_slice sq (token_start t) (token_end t + 1) =
        chars_between sq (token_start t) (token_end t)"
    unfolding chars_between_def
    using token_nonneg[OF assms(1)] assms(2) by (rule py_slice_in_range)
  then show ?thesis by (simp add: node_of_token_def token_range_def)
qed

lemma no_token_findall:
  assumes "\<not> has_token ps"
  shows "findall ps = []"
proof (rule ccontr)
  assume "findall ps \<noteq> []"
  then obtain t where "t \<in> set (findall ps)" by (cases "findall ps") auto
  then have "is_token t" "\<exists>pre post. ps = pre @ t @ post"
    using findall_tokens by blast+
  then have "has_token ps" unfolding has_token_def by blast
  with assms show False by simp
qed

lemma token_has_colon: "is_token t \<Longrightarrow> CHR '':'' \<in> set t"
  by (auto simp: is_token_def)

lemma no_colon_no_token: "CHR '':'' \<notin> set s \<Longrightarrow> \<not> has_token s"
  using token_has_colon by (auto simp: has_token_def)

text \<open>
  The scan misses nothing: where some substring is a token, it finds one. So it returns
  the empty list exactly for the strings without a token.
\<close>

lemma takeWhile_digits_then:
  "digits d \<Longrightarrow> \<not> is_digit c \<Longrightarrow> takeWhile is_digit (d @ c # r) = d"
  by (simp add: digits_def list_all_iff)

lemma dropWhile_digits_then:
  "digits d \<Longrightarrow> \<not> is_digit c \<Longrightarrow> dropWhile is_digit (d @ c # r) = c # r"
  by (simp add: digits_def list_all_iff)

lemma match_token_complete:
  assumes "is_token t"
  shows "match_token (t @ post) \<noteq> None"
proof -
  from assms obtain loc st en where
    d: "digits loc" "digits st" "digits en" and t: "t = loc @ CHR '':'' # st @ CHR ''-'' # en"
    by (auto simp: is_token_def)
  have nc: "\<not> is_digit CHR '':''" "\<not> is_digit CHR ''-''" by (simp_all add: is_digit_def)
  have e: "t @ post = loc @ CHR '':'' # (st @ CHR ''-'' # (en @ post))" using t by simp
  have 1: "takeWhile is_digit (t @ post) = loc"
    "dropWhile is_digit (t @ post) = CHR '':'' # (st @ CHR ''-'' # (en @ post))"
    unfolding e using d(1) nc(1) by (rule takeWhile_digits_then, rule dropWhile_digits_then)
  have 2: "takeWhile is_digit (st @ CHR ''-'' # (en @ post)) = st"
    "dropWhile is_digit (st @ CHR ''-'' # (en @ post)) = CHR ''-'' # (en @ post)"
    using d(2) nc(2) by (rule takeWhile_digits_then, rule dropWhile_digits_then)
  have 3: "takeWhile is_digit (en @ post) \<noteq> []"
    using d(3) by (cases en) (auto simp: digits_def)
  have ne: "loc \<noteq> []" "st \<noteq> []" using d by (simp_all add: digits_def)
  show ?thesis
    by (simp add: match_token_def Let_def 1 2 3 ne)
qed

lemma findall_complete:
  "has_token s \<Longrightarrow> findall s \<noteq> []"
proof (induction s rule: findall.induct)
  case 1
  then have "is_token []" by (auto simp: has_token_def)
  then show ?case by (auto simp: is_token_def)
next
  case (2 c cs)
  show ?case
  proof (cases "match_token (c # cs)")
    case (Some mr)
    then show ?thesis by (cases mr) simp
  next
    case None
    from 2(3) obtain pre t post where e: "c # cs = pre @ t @ post" and t: "is_token t"
      by (auto simp: has_token_def)
    have "pre \<noteq> []"
    proof
      assume "pre = []"
      with e have "match_token (c # cs) = match_token (t @ post)" by simp
      with None match_token_complete[OF t] show False by simp
    qed
    then obtain pre1 where "pre = c # pre1" "cs = pre1 @ t @ post"
      using e by (cases pre) auto
    with t have "has_token cs" by (auto simp: has_token_def)
    with 2(1)[OF None] have "findall cs \<noteq> []" by simp
    with None show ?thesis by simp
  qed
qed

lemma findall_empty_iff: "findall s = [] \<longleftrightarrow> \<not> has_token s"
  using findall_complete no_token_findall by blast

text \<open>A string that is one token and nothing else is found whole.\<close>

lemma match_token_exact:
  assumes "digits loc" "digits st" "digits en"
  shows "match_token (loc @ CHR '':'' # st @ CHR ''-'' # en) =
           Some (loc @ CHR '':'' # st @ CHR ''-'' # en, [])"
proof -
  have nc: "\<not> is_digit CHR '':''" "\<not> is_digit CHR ''-''" by (simp_all add: is_digit_def)
  have 1: "takeWhile is_digit (loc @ CHR '':'' # st @ CHR ''-'' # en) = loc"
    "dropWhile is_digit (loc @ CHR '':'' # st @ CHR ''-'' # en) = CHR '':'' # st @ CHR ''-'' # en"
    using assms(1) nc(1) by (rule takeWhile_digits_then, rule dropWhile_digits_then)
  have 2: "takeWhile is_digit (st @ CHR ''-'' # en) = st"
    "dropWhile is_digit (st @ CHR ''-'' # en) = CHR ''-'' # en"
    using assms(2) nc(2) by (rule takeWhile_digits_then, rule dropWhile_digits_then)
  have 3: "takeWhile is_digit en = en" "dropWhile is_digit en = []"
    using assms(3) by (simp_all add: digits_def takeWhile_digits dropWhile_digits)
  have ne: "loc \<noteq> []" "st \<noteq> []" "en \<noteq> []" using assms by (simp_all add: digits_def)
  show ?thesis
    by (simp add: match_token_def Let_def 1 2 3 ne)
qed

lemma findall_single_token:
  assumes "digits loc" "digits st" "digits en"
  shows "findall (loc @ CHR '':'' # st @ CHR ''-'' # en) = [loc @ CHR '':'' # st @ CHR ''-'' # en]"
proof -
  obtain c cs where c: "loc @ CHR '':'' # st @ CHR ''-'' # en = c # cs"
    by (cases "loc @ CHR '':'' # st @ CHR ''-'' # en") auto
  have "findall (c # cs) = [c # cs]"
    using match_token_exact[OF assms] unfolding c by simp
  then show ?thesis unfolding c .
qed

lemma digits_padded: "digits s \<Longrightarrow> digits (replicate n CHR ''0'' @ s)"
  by (induction n) (auto simp: digits_def is_digit_def)

lemma decimal_padded: "decimal (replicate n CHR ''0'' @ s) = decimal s"
proof -
  have "foldl (\<lambda>acc c. 10 * acc + digit_val c) 0 (replicate n CHR ''0'') = 0"
    by (induction n) (simp_all add: digit_val_def)
  then show ?thesis by (simp add: decimal_def)
qed

lemma small_digits: "digits ''0''" "digits ''1''" "digits ''3''" "digits ''5''" "digits ''10''"
  by (simp_all add: digits_def is_digit_def)

lemma small_decimals: "decimal ''0'' = 0" "decimal ''3'' = 3" "decimal ''10'' = 10"
  by (simp_all add: decimal_def digit_val_def)

lemma end_padded_facts:
  "findall (end_padded n) = [end_padded n]"
  "is_token (end_padded n)"
  "token_start (end_padded n) = 0"
  "token_end (end_padded n) = 3"
  "length (token_end_str (end_padded n)) = n + 1"
proof -
  have e: "end_padded n = ''1'' @ CHR '':'' # ''0'' @ CHR ''-'' # (replicate n CHR ''0'' @ ''3'')"
    by (simp add: end_padded_def)
  note d = small_digits(2) small_digits(1) digits_padded[OF small_digits(3), of n]
  show "findall (end_padded n) = [end_padded n]"
    unfolding e by (rule findall_single_token[OF d])
  show "is_token (end_padded n)"
    unfolding e is_token_def using d by (intro exI[of _ "''1''"] exI[of _ "''0''"]
        exI[of _ "replicate n CHR ''0'' @ ''3''"]) simp
  show "token_start (end_padded n) = 0"
    unfolding e token_start_def token_parts[OF d] by (rule small_decimals)
  show "token_end (end_padded n) = 3"
    unfolding e token_end_def token_parts[OF d] decimal_padded by (rule small_decimals)
  show "length (token_end_str (end_padded n)) = n + 1"
    unfolding e token_parts[OF d] by simp
qed

lemma start_padded_facts:
  "findall (start_padded n) = [start_padded n]"
  "is_token (start_padded n)"
  "token_start (start_padded n) = 10"
  "token_end (start_padded n) = 3"
  "length (token_start_str (start_padded n)) = n + 2"
proof -
  have e: "start_padded n = ''5'' @ CHR '':'' # (replicate n CHR ''0'' @ ''10'') @ CHR ''-'' # ''3''"
    by (simp add: start_padded_def)
  note d = small_digits(4) digits_padded[OF small_digits(5), of n] small_digits(3)
  show "findall (start_padded n) = [start_padded n]"
    unfolding e by (rule findall_single_token[OF d])
  show "is_token (start_padded n)"
    unfolding e is_token_def using d by (intro exI[of _ "''5''"]
        exI[of _ "replicate n CHR ''0'' @ ''10''"] exI[of _ "''3''"]) simp
  show "token_start (start_padded n) = 10"
    unfolding e token_start_def token_parts[OF d] decimal_padded by (rule small_decimals)
  show "token_end (start_padded n) = 3"
    unfolding e token_end_def token_parts[OF d] by (rule small_decimals)
  show "length (token_start_str (start_padded n)) = n + 2"
    unfolding e token_parts[OF d] by simp
qed

lemma single_token_over_limit:
  assumes "findall ps = [ps]" "is_token ps" "\<not> within_digit_limit ps"
  shows "Node_path_init st tn ps sq = Inl ValueError"
  using parse_token_over_limit[OF assms(2,3)] by (simp add: Node_path_init_def assms(1))

lemma findall_example1: "findall ''1:0-1 22:2-3'' = [''1:0-1'', ''22:2-3'']"
  by code_simp

lemma tokens_example1:
  "within_digit_limit ''1:0-1''" "token_start ''1:0-1'' = 0" "token_end ''1:0-1'' = 1"
  "within_digit_limit ''22:2-3''" "token_start ''22:2-3'' = 2" "token_end ''22:2-3'' = 3"
  by code_simp+

lemma findall_example2: "findall ''1:0-3 5:10-3'' = [''1:0-3'', ''5:10-3'']"
  by code_simp

lemma tokens_example2:
  "within_digit_limit ''1:0-3''" "within_digit_limit ''5:10-3''"
  "token_loc ''5:10-3'' = ''5''" "token_start ''5:10-3'' = 10" "token_end ''5:10-3'' = 3"
  by code_simp+

text \<open>
  Claim C5, as stated: when every decoded token \<open>LOC:START-END\<close> of the path has
  \<open>0 \<le> START\<close> and \<open>END < length full_sequence\<close>, the sequences of the decoded nodes
  reproduce the characters of the ranges. It fails for the path \<open>1:0-0\<dots>03\<close> with 4300
  zeros before the 3, over \<^verbatim>\<open>ACGT\<close>: that path is one token, with \<open>START = 0\<close> and
  \<open>END = 3\<close>, and decoding it raises ValueError at line 85, since \<^verbatim>\<open>int()\<close> refuses the
  4301 digits of \<open>END\<close>.
\<close>

theorem path_decoder_round_trip_counterexample:
  "findall (end_padded 4300) = [end_padded 4300] \<and>
   0 \<le> token_start (end_padded 4300) \<and>
   token_end (end_padded 4300) < int (length ''ACGT'') \<and>
   Node_path_init st0 ''T_i1'' (end_padded 4300) ''ACGT'' = Inl ValueError"
proof -
  have "\<not> within_digit_limit (end_padded 4300)"
    by (simp add: within_digit_limit_def end_padded_facts(5) int_max_str_digits_def)
  then have "Node_path_init st0 ''T_i1'' (end_padded 4300) ''ACGT'' = Inl ValueError"
    by (intro single_token_over_limit end_padded_facts)
  then show ?thesis by (simp add: end_padded_facts)
qed

text \<open>
  Claim C5, amended. Path decoder round trip: when every decoded token \<open>LOC:START-END\<close>
  of the path has \<open>START\<close> and \<open>END\<close> written with at most 4300 digits each, \<open>0 \<le> START\<close>
  and \<open>END < length full_sequence\<close>, decoding succeeds and the sequences of the decoded
  nodes, concatenated in order, are the characters \<open>full_sequence[START..END]\<close> (\<open>END\<close>
  included) of the tokens, in token order.
\<close>

theorem path_decoder_round_trip:
  assumes "\<forall>t \<in> set (findall ps).
             within_digit_limit t \<and> 0 \<le> token_start t \<and> token_end t < int (length sq)"
  shows "\<exists>st1 p. Node_path_init st tn ps sq = Inr (st1, p) \<and>
           concat (path_seqs st1 p) = concat (map (token_range sq) (findall ps))"
proof -
  have d: "decodable_path ps" using assms by (simp add: decodable_path_def list_all_iff)
  obtain st1 p where r: "Node_path_init st tn ps sq = Inr (st1, p)"
    by (simp add: Node_path_init_result[OF d])
  have "map (\<lambda>t. seq (node_of_token tn sq t)) (findall ps) = map (token_range sq) (findall ps)"
  proof (rule map_cong[OF refl])
    fix t assume t: "t \<in> set (findall ps)"
    then have "is_token t" using findall_tokens by blast
    moreover have "token_end t < int (length sq)" using assms t by blast
    ultimately show "seq (node_of_token tn sq t) = token_range sq t"
      by (rule token_node_seq)
  qed
  then have "path_seqs st1 p = map (token_range sq) (findall ps)"
    using path_seqs_decoded[OF d r] by simp
  with r show ?thesis by simp
qed

theorem path_decoder_round_trip_witness:
  "findall ''1:0-1 22:2-3'' = [''1:0-1'', ''22:2-3''] \<and>
   map parse_node_descr [''1:0-1'', ''22:2-3''] = [Inr (''1'', 0, 1), Inr (''22'', 2, 3)] \<and>
   (\<exists>st1 p. Node_path_init st0 ''T_i1'' ''1:0-1 22:2-3'' ''ACGT'' = Inr (st1, p) \<and>
        concat (path_seqs st1 p) = ''ACGT'')"
proof -
  have h: "\<forall>t \<in> set (findall ''1:0-1 22:2-3'').
       within_digit_limit t \<and> 0 \<le> token_start t \<and> token_end t < int (length ''ACGT'')"
    unfolding findall_example1 by (simp add: tokens_example1)
  have c: "concat (map (token_range ''ACGT'') (findall ''1:0-1 22:2-3'')) = ''ACGT''"
    unfolding findall_example1
    by (simp add: token_range_def tokens_example1 chars_between_def upt_conv_Cons)
  have m: "map parse_node_descr [''1:0-1'', ''22:2-3''] = [Inr (''1'', 0, 1), Inr (''22'', 2, 3)]"
    by code_simp
  from path_decoder_round_trip[OF h, of st0 "''T_i1''"] c m findall_example1
  show ?thesis by simp
qed

text \<open>
  Claim C8. A path string with no substring of the form \<open>LOC:START-END\<close> decodes without
  error to a path whose node list is empty (and no node object is created).
\<close>

theorem decode_without_tokens:
  assumes "\<not> has_token ps"
  shows "Node_path_init st tn ps sq = Inr (st, \<lparr>path_transcript_name = tn, node_obj_list = []\<rparr>)"
  using no_token_findall[OF assms] by (simp add: Node_path_init_def)

theorem decode_without_tokens_witness:
  "\<not> has_token ''[-1, 1, 27, -2]'' \<and>
   Node_path_init st0 ''T_i1'' ''[-1, 1, 27, -2]'' ''ACGT'' =
     Inr (st0, \<lparr>path_transcript_name = ''T_i1'', node_obj_list = []\<rparr>)"
proof -
  have h: "\<not> has_token ''[-1, 1, 27, -2]''"
    by (rule no_colon_no_token) simp
  from decode_without_tokens[OF h, of st0 "''T_i1''" "''ACGT''"] h show ?thesis by simp
qed

text \<open>
  Claim C9, as stated: for a path token \<open>LOC:START-END\<close> with \<open>END + 1 \<le> START\<close> decoding
  does not raise. It fails for the path \<open>5:0\<dots>010-3\<close> with 4300 zeros before the 10: that
  path is one token, with \<open>START = 10\<close> and \<open>END = 3\<close>, and decoding it raises ValueError
  at line 84, since \<^verbatim>\<open>int()\<close> refuses the 4302 digits of \<open>START\<close>.
\<close>

theorem decode_reversed_range_counterexample:
  "findall (start_padded 4300) = [start_padded 4300] \<and>
   token_end (start_padded 4300) + 1 \<le> token_start (start_padded 4300) \<and>
   Node_path_init st0 ''T_i1'' (start_padded 4300) ''ACGT'' = Inl ValueError"
proof -
  have "\<not> within_digit_limit (start_padded 4300)"
    by (simp add: within_digit_limit_def start_padded_facts(5) int_max_str_digits_def)
  then have "Node_path_init st0 ''T_i1'' (start_padded 4300) ''ACGT'' = Inl ValueError"
    by (intro single_token_over_limit start_padded_facts)
  then show ?thesis by (simp add: start_padded_facts)
qed

text \<open>
  Claim C9, amended. In a path whose tokens have \<open>START\<close> and \<open>END\<close> written with at most
  4300 digits each, for a token \<open>LOC:START-END\<close> with \<open>END + 1 \<le> START\<close> decoding does not
  raise: every token still takes one position of the path, and at the position of that
  token stands a node of locus \<open>LOC\<close> with the empty sequence and length 0.
\<close>

theorem decode_reversed_range:
  assumes "\<forall>t \<in> set (findall ps). within_digit_limit t"
    and "k < length (findall ps)"
    and "token_end (findall ps ! k) + 1 \<le> token_start (findall ps ! k)"
  shows "\<exists>st1 p. Node_path_init st tn ps sq = Inr (st1, p) \<and>
           length (node_obj_list p) = length (findall ps) \<and>
           node_obj_list p ! k < length (heap st1) \<and>
           loc_node_id (heap st1 ! (node_obj_list p ! k)) = token_loc (findall ps ! k) \<and>
           seq (heap st1 ! (node_obj_list p ! k)) = [] \<and>
           len (heap st1 ! (node_obj_list p ! k)) = 0"
proof -
  let ?n = "length (heap st)" and ?toks = "findall ps"
  let ?st1 = "st\<lparr>heap := heap st @ map (node_of_token tn sq) ?toks\<rparr>"
  let ?p = "\<lparr>path_transcript_name = tn, node_obj_list = [?n ..< ?n + length ?toks]\<rparr>"
  have d: "decodable_path ps" using assms(1) by (simp add: decodable_path_def list_all_iff)
  have r: "Node_path_init st tn ps sq = Inr (?st1, ?p)" by (rule Node_path_init_result[OF d])
  have "is_token (?toks ! k)" using assms(2) findall_tokens nth_mem by blast
  from token_nonneg[OF this]
  have e: "py_slice sq (token_start (?toks ! k)) (token_end (?toks ! k) + 1) = []"
    using assms(3) by (intro py_slice_reversed)
  have i: "node_obj_list ?p ! k = ?n + k" using assms(2) by simp
  have "heap ?st1 ! (?n + k) = node_of_token tn sq (?toks ! k)"
    using assms(2) by (simp add: nth_append)
  then have n: "heap ?st1 ! (node_obj_list ?p ! k) =
      \<lparr>transcript_name = tn, loc_node_id = token_loc (?toks ! k), seq = [], len = 0,
       prev = {}, next = {}\<rparr>"
    unfolding i by (simp add: node_of_token_def e)
  have b: "node_obj_list ?p ! k < length (heap ?st1)" unfolding i using assms(2) by simp
  have l: "length (node_obj_list ?p) = length ?toks" by simp
  from r l b n show ?thesis by (intro exI[of _ ?st1] exI[of _ ?p]) simp
qed

theorem decode_reversed_range_witness:
  "findall ''1:0-3 5:10-3'' = [''1:0-3'', ''5:10-3''] \<and>
   parse_node_descr ''5:10-3'' = Inr (''5'', 10, 3) \<and>
   (\<exists>st1 p. Node_path_init st0 ''T_i1'' ''1:0-3 5:10-3'' ''ACGTACGTACGTACGT'' = Inr (st1, p) \<and>
           length (node_obj_list p) = 2 \<and>
           loc_node_id (heap st1 ! (node_obj_list p ! 1)) = ''5'' \<and>
           seq (heap st1 ! (node_obj_list p ! 1)) = [] \<and>
           len (heap st1 ! (node_obj_list p ! 1)) = 0)"
proof -
  have a: "\<forall>t \<in> set (findall ''1:0-3 5:10-3''). within_digit_limit t"
    unfolding findall_example2 by (simp add: tokens_example2)
  have b: "(1::nat) < length (findall ''1:0-3 5:10-3'')" unfolding findall_example2 by simp
  have c: "token_end (findall ''1:0-3 5:10-3'' ! 1) + 1 \<le> token_start (findall ''1:0-3 5:10-3'' ! 1)"
    unfolding findall_example2 by (simp add: tokens_example2)
  have p: "parse_node_descr ''5:10-3'' = Inr (''5'', 10, 3)" by code_simp
  from decode_reversed_range[OF a b c, of st0 "''T_i1''" "''ACGTACGTACGTACGT''"]
  show ?thesis using p unfolding findall_example2 by (auto simp: tokens_example2)
qed

subsection \<open>The node cache\<close>

text \<open>
  Claim C2 says that a second \<^verbatim>\<open>Node.get_node\<close> call with the same key and sequence
  returns the node of the first call, and that a differing sequence raises an identity
  conflict. In the source every call of \<^verbatim>\<open>get_node\<close>, the first included, stops at
  line 32 with the NameError of the bare name \<^verbatim>\<open>get_node_id\<close>: no node is ever returned.
\<close>

theorem get_node_unresolved_name:
  "get_node st tn loc node_seq = Inl (NameError ''get_node_id'')"
  by (simp add: get_node_def resolve_name_def module_globals_def builtins_used_def)

lemma decode_allocation:
  "decodable_path ps \<Longrightarrow>
   \<exists>st1 p. Node_path_init st tn ps sq = Inr (st1, p) \<and>
      length (heap st1) = length (heap st) + length (findall ps) \<and>
      node_cache st1 = node_cache st \<and> distinct (node_obj_list p)"
  by (simp add: Node_path_init_result)

lemma decodable_example3: "decodable_path ''27:0-0 28:1-1 27:2-2''"
  by code_simp

lemma findall_example3: "findall ''27:0-0 28:1-1 27:2-2'' = [''27:0-0'', ''28:1-1'', ''27:2-2'']"
  by code_simp

lemma nodes_example3:
  "map (node_of_token ''T_i1'' ''CTC'') [''27:0-0'', ''28:1-1'', ''27:2-2''] =
     [\<lparr>transcript_name = ''T_i1'', loc_node_id = ''27'', seq = ''C'', len = 1,
       prev = {}, next = {}\<rparr>,
      \<lparr>transcript_name = ''T_i1'', loc_node_id = ''28'', seq = ''T'', len = 1,
       prev = {}, next = {}\<rparr>,
      \<lparr>transcript_name = ''T_i1'', loc_node_id = ''27'', seq = ''C'', len = 1,
       prev = {}, next = {}\<rparr>]"
  by code_simp

text \<open>
  Claim C3 says that decoding creates at most one node per identity key and reuses the
  cached one. In the source the decoder calls the constructor for every token: the path
  \<^verbatim>\<open>27:0-0 28:1-1 27:2-2\<close> over \<^verbatim>\<open>CTC\<close> gives three objects, the first and the third with the
  same key \<^verbatim>\<open>T_i1::27::1\<close> and the same sequence, and \<^verbatim>\<open>node_cache\<close> stays empty.
\<close>

theorem decode_builds_one_node_per_token:
  "Node_path_init st0 ''T_i1'' ''27:0-0 28:1-1 27:2-2'' ''CTC'' =
     Inr (st0\<lparr>heap :=
            [\<lparr>transcript_name = ''T_i1'', loc_node_id = ''27'', seq = ''C'', len = 1,
              prev = {}, next = {}\<rparr>,
             \<lparr>transcript_name = ''T_i1'', loc_node_id = ''28'', seq = ''T'', len = 1,
              prev = {}, next = {}\<rparr>,
             \<lparr>transcript_name = ''T_i1'', loc_node_id = ''27'', seq = ''C'', len = 1,
              prev = {}, next = {}\<rparr>]\<rparr>,
          \<lparr>path_transcript_name = ''T_i1'', node_obj_list = [0, 1, 2]\<rparr>) \<and>
   get_node_id ''T_i1'' ''27'' ''C'' = ''T_i1::27::1''"
proof -
  have "heap st0 = []" by (simp add: st0_def)
  moreover have "[0 ..< 3] = [0, 1, 2::nat]" by (simp add: upt_conv_Cons)
  moreover have "get_node_id ''T_i1'' ''27'' ''C'' = ''T_i1::27::1''" by code_simp
  ultimately show ?thesis
    unfolding Node_path_init_result[OF decodable_example3] findall_example3 nodes_example3
    by simp
qed

subsection \<open>Node sets and the similarity matrix\<close>

lemma square_nth: "square n m \<Longrightarrow> a < n \<Longrightarrow> length (m ! a) = n"
  by (simp add: square_def list_all_length)

lemma square_set_cell: "square n m \<Longrightarrow> square n (set_cell m i j v)"
  by (cases "i < length m")
     (auto simp: square_def set_cell_def list_all_length nth_list_update)

lemma set_cell_nth:
  assumes "square n m" "i < n" "j < n" "a < n" "b < n"
  shows "set_cell m i j v ! a ! b = (if a = i \<and> b = j then v else m ! a ! b)"
  using assms square_nth[OF assms(1)]
  by (auto simp: set_cell_def square_def nth_list_update)

lemma sim_inner_ok:
  assumes "\<forall>j \<in> set js. \<exists>S. compute_number_common_nodes h (als ! i) (als ! j) = Inr S \<and>
              int (card S) = cn i j"
    and "square n m" "i < n" "\<forall>j \<in> set js. j < n \<and> j \<noteq> i"
  shows "\<exists>m1. sim_inner h als i js m = Inr m1 \<and> square n m1 \<and>
           (\<forall>a<n. \<forall>b<n. m1 ! a ! b =
              (if a = i \<and> b \<in> set js then cn i b
               else if b = i \<and> a \<in> set js then cn i a
               else m ! a ! b))"
  using assms
proof (induction js arbitrary: m)
  case Nil
  then show ?case by simp
next
  case (Cons j js)
  from Cons.prems(1) obtain S where
    S: "compute_number_common_nodes h (als ! i) (als ! j) = Inr S" "int (card S) = cn i j"
    by auto
  let ?m0 = "set_cell (set_cell m i j (cn i j)) j i (cn i j)"
  have j: "j < n" "j \<noteq> i" using Cons.prems(4) by auto
  have sq1: "square n (set_cell m i j (cn i j))" using Cons.prems(2) by (rule square_set_cell)
  have sq0: "square n ?m0" using sq1 by (rule square_set_cell)
  have step: "sim_inner h als i (j # js) m = sim_inner h als i js ?m0"
    using S by (simp add: Let_def)
  have m0: "\<And>a b. a < n \<Longrightarrow> b < n \<Longrightarrow>
      ?m0 ! a ! b = (if a = j \<and> b = i then cn i j else if a = i \<and> b = j then cn i j else m ! a ! b)"
    using set_cell_nth[OF sq1 j(1) Cons.prems(3)] set_cell_nth[OF Cons.prems(2) Cons.prems(3) j(1)]
    by simp
  have "\<exists>m1. sim_inner h als i js ?m0 = Inr m1 \<and> square n m1 \<and>
           (\<forall>a<n. \<forall>b<n. m1 ! a ! b =
              (if a = i \<and> b \<in> set js then cn i b
               else if b = i \<and> a \<in> set js then cn i a
               else ?m0 ! a ! b))"
    using Cons.prems by (intro Cons.IH sq0) auto
  then obtain m1 where m1: "sim_inner h als i js ?m0 = Inr m1" "square n m1"
    "\<And>a b. a < n \<Longrightarrow> b < n \<Longrightarrow> m1 ! a ! b =
              (if a = i \<and> b \<in> set js then cn i b
               else if b = i \<and> a \<in> set js then cn i a
               else ?m0 ! a ! b)" by blast
  have "\<forall>a<n. \<forall>b<n. m1 ! a ! b =
              (if a = i \<and> b \<in> set (j # js) then cn i b
               else if b = i \<and> a \<in> set (j # js) then cn i a
               else m ! a ! b)"
    using j by (auto simp: m1(3) m0)
  with step m1(1,2) show ?case by simp
qed

lemma sim_outer_ok:
  assumes "\<forall>i<n. \<forall>j<n. i < j \<longrightarrow>
             (\<exists>S. compute_number_common_nodes h (als ! i) (als ! j) = Inr S \<and>
                  int (card S) = cn i j)"
    and "square n m" "\<forall>i \<in> set is. i < n" "distinct is"
  shows "\<exists>m1. sim_outer h als n is m = Inr m1 \<and> square n m1 \<and>
           (\<forall>a<n. \<forall>b<n. m1 ! a ! b =
              (if a \<in> set is \<and> a < b then cn a b
               else if b \<in> set is \<and> b < a then cn b a
               else m ! a ! b))"
  using assms(2-)
proof (induction "is" arbitrary: m)
  case Nil
  then show ?case by simp
next
  case (Cons i "is")
  have i: "i < n" using Cons.prems(2) by simp
  have "\<forall>j \<in> set [i + 1 ..< n]. \<exists>S. compute_number_common_nodes h (als ! i) (als ! j) = Inr S \<and>
              int (card S) = cn i j"
    using assms(1) i by auto
  moreover have "\<forall>j \<in> set [i + 1 ..< n]. j < n \<and> j \<noteq> i" by auto
  ultimately have "\<exists>m0. sim_inner h als i [i + 1 ..< n] m = Inr m0 \<and> square n m0 \<and>
           (\<forall>a<n. \<forall>b<n. m0 ! a ! b =
              (if a = i \<and> b \<in> set [i + 1 ..< n] then cn i b
               else if b = i \<and> a \<in> set [i + 1 ..< n] then cn i a
               else m ! a ! b))"
    using Cons.prems(1) i by (intro sim_inner_ok)
  then obtain m0 where m0: "sim_inner h als i [i + 1 ..< n] m = Inr m0" "square n m0"
    "\<And>a b. a < n \<Longrightarrow> b < n \<Longrightarrow> m0 ! a ! b =
              (if a = i \<and> i < b then cn i b
               else if b = i \<and> i < a then cn i a
               else m ! a ! b)"
    by auto
  have "\<exists>m1. sim_outer h als n is m0 = Inr m1 \<and> square n m1 \<and>
           (\<forall>a<n. \<forall>b<n. m1 ! a ! b =
              (if a \<in> set is \<and> a < b then cn a b
               else if b \<in> set is \<and> b < a then cn b a
               else m0 ! a ! b))"
    using Cons.prems by (intro Cons.IH m0(2)) auto
  then obtain m1 where m1: "sim_outer h als n is m0 = Inr m1" "square n m1"
    "\<And>a b. a < n \<Longrightarrow> b < n \<Longrightarrow> m1 ! a ! b =
              (if a \<in> set is \<and> a < b then cn a b
               else if b \<in> set is \<and> b < a then cn b a
               else m0 ! a ! b)"
    by blast
  have "\<forall>a<n. \<forall>b<n. m1 ! a ! b =
              (if a \<in> set (i # is) \<and> a < b then cn a b
               else if b \<in> set (i # is) \<and> b < a then cn b a
               else m ! a ! b)"
    by (auto simp: m1(3) m0(3))
  moreover have "sim_outer h als n (i # is) m = Inr m1" using m0(1) m1(1) by simp
  ultimately show ?case using m1(2) by blast
qed

lemma square_zeros: "square n (replicate n (replicate n 0))"
  by (simp add: square_def list_all_length)

lemma compute_similarity_matrix_ok:
  assumes "\<forall>i<length als. \<forall>j<length als. i < j \<longrightarrow>
             (\<exists>S. compute_number_common_nodes h (als ! i) (als ! j) = Inr S \<and>
                  int (card S) = cn i j)"
  shows "\<exists>m. compute_similarity_matrix h als = Inr m \<and> square (length als) m \<and>
           (\<forall>a<length als. \<forall>b<length als. m ! a ! b =
              (if a < b then cn a b else if b < a then cn b a else 0))"
proof -
  let ?n = "length als"
  have "\<exists>m1. sim_outer h als ?n [0 ..< ?n - 1] (replicate ?n (replicate ?n 0)) = Inr m1 \<and>
           square ?n m1 \<and>
           (\<forall>a<?n. \<forall>b<?n. m1 ! a ! b =
              (if a \<in> set [0 ..< ?n - 1] \<and> a < b then cn a b
               else if b \<in> set [0 ..< ?n - 1] \<and> b < a then cn b a
               else replicate ?n (replicate ?n 0) ! a ! b))"
    using assms by (intro sim_outer_ok square_zeros) auto
  then obtain m1 where m1:
    "sim_outer h als ?n [0 ..< ?n - 1] (replicate ?n (replicate ?n 0)) = Inr m1" "square ?n m1"
    "\<And>a b. a < ?n \<Longrightarrow> b < ?n \<Longrightarrow> m1 ! a ! b =
              (if a \<in> set [0 ..< ?n - 1] \<and> a < b then cn a b
               else if b \<in> set [0 ..< ?n - 1] \<and> b < a then cn b a
               else replicate ?n (replicate ?n 0) ! a ! b)"
    by blast
  have "\<forall>a<?n. \<forall>b<?n. m1 ! a ! b = (if a < b then cn a b else if b < a then cn b a else 0)"
  proof (intro allI impI)
    fix a b assume ab: "a < ?n" "b < ?n"
    then have "a < b \<Longrightarrow> a < ?n - 1" "b < a \<Longrightarrow> b < ?n - 1" by linarith+
    then show "m1 ! a ! b = (if a < b then cn a b else if b < a then cn b a else 0)"
      using ab by (auto simp: m1(3))
  qed
  with m1(1,2) show ?thesis by (simp add: compute_similarity_matrix_def Let_def)
qed

lemma node_set_row_ok:
  assumes "nth_py rows r = Inr row" "\<forall>c \<in> set cs. c < length row"
  shows "node_set_row rows r cs S = Inr (S \<union> {n. \<exists>c \<in> set cs. row ! c = Some n})"
  using assms(2)
proof (induction cs arbitrary: S)
  case Nil
  then show ?case by simp
next
  case (Cons c cs)
  then have c: "nth_py row c = Inr (row ! c)" by (simp add: nth_py_def)
  have "node_set_row rows r (c # cs) S =
        node_set_row rows r cs (case row ! c of None \<Rightarrow> S | Some n \<Rightarrow> insert n S)"
    by (simp add: assms(1) c)
  also have "\<dots> = Inr ((case row ! c of None \<Rightarrow> S | Some n \<Rightarrow> insert n S) \<union>
                     {n. \<exists>c \<in> set cs. row ! c = Some n})"
    using Cons.prems by (intro Cons.IH) simp
  also have "(case row ! c of None \<Rightarrow> S | Some n \<Rightarrow> insert n S) \<union>
                     {n. \<exists>c \<in> set cs. row ! c = Some n} =
             S \<union> {n. \<exists>c' \<in> set (c # cs). row ! c' = Some n}"
    by (cases "row ! c") auto
  finally show ?case .
qed

lemma node_set_rows_ok:
  assumes "\<forall>r \<in> set rs. r < length rows \<and> w \<le> length (rows ! r)"
  shows "node_set_rows rows rs w S =
           Inr (S \<union> {n. \<exists>r \<in> set rs. \<exists>c<w. rows ! r ! c = Some n})"
  using assms
proof (induction rs arbitrary: S)
  case Nil
  then show ?case by simp
next
  case (Cons r rs)
  then have r: "nth_py rows r = Inr (rows ! r)" "\<forall>c \<in> set [0 ..< w]. c < length (rows ! r)"
    by (auto simp: nth_py_def)
  have "node_set_rows rows (r # rs) w S =
        node_set_rows rows rs w (S \<union> {n. \<exists>c \<in> set [0 ..< w]. rows ! r ! c = Some n})"
    by (simp add: node_set_row_ok[OF r])
  also have "\<dots> = Inr ((S \<union> {n. \<exists>c \<in> set [0 ..< w]. rows ! r ! c = Some n}) \<union>
                     {n. \<exists>r \<in> set rs. \<exists>c<w. rows ! r ! c = Some n})"
    using Cons.prems by (intro Cons.IH) simp
  also have "(S \<union> {n. \<exists>c \<in> set [0 ..< w]. rows ! r ! c = Some n}) \<union>
                     {n. \<exists>r \<in> set rs. \<exists>c<w. rows ! r ! c = Some n} =
             S \<union> {n. \<exists>r' \<in> set (r # rs). \<exists>c<w. rows ! r' ! c = Some n}"
    by auto
  finally show ?case .
qed

lemma get_node_set_valid:
  assumes "valid_alignment a"
  shows "\<exists>S. get_node_set a = Inr S"
proof -
  let ?rows = "aligned_nodes a"
  from assms have ne: "?rows \<noteq> []" and len: "length ?rows = length (transcript_names a)"
    and rows: "\<forall>r<length ?rows. length (?rows ! r) = length (hd ?rows)"
    by (auto simp: valid_alignment_def list_all_length)
  have w: "width a = Inr (length (hd ?rows))"
    using ne by (cases ?rows) (auto simp: width_def nth_py_def)
  have "\<forall>r \<in> set [0 ..< length (transcript_names a)].
          r < length ?rows \<and> length (hd ?rows) \<le> length (?rows ! r)"
    using len rows by auto
  from node_set_rows_ok[OF this, of "{}"] show ?thesis
    by (simp add: get_node_set_def len_alignment_def w)
qed

lemma foldl_append_some:
  "foldl (\<lambda>row node_obj. row @ [Some node_obj]) acc objs = acc @ map Some objs"
  by (induction objs arbitrary: acc) auto

lemma single_seq_alignment:
  "get_single_seq_node_alignment tn p =
     \<lparr>transcript_names = [tn], aligned_nodes = [map Some (node_obj_list p)]\<rparr>"
  by (simp add: get_single_seq_node_alignment_def Node_alignment_init_def foldl_append_some)

lemma single_seq_valid: "valid_alignment (get_single_seq_node_alignment tn p)"
  by (simp add: single_seq_alignment valid_alignment_def)

lemma single_seq_node_set:
  "get_node_set (get_single_seq_node_alignment tn p) = Inr (set (node_obj_list p))"
proof -
  let ?objs = "node_obj_list p"
  let ?rows = "[map Some ?objs]"
  have "\<forall>r \<in> set [0 ..< 1]. r < length ?rows \<and> length ?objs \<le> length (?rows ! r)"
    by simp
  from node_set_rows_ok[OF this, of "{}"]
  have "node_set_rows ?rows [0 ..< 1] (length ?objs) {} =
          Inr {n. \<exists>c<length ?objs. map Some ?objs ! c = Some n}"
    by simp
  also have "{n. \<exists>c<length ?objs. map Some ?objs ! c = Some n} = set ?objs"
  proof -
    have "\<And>n. (\<exists>c<length ?objs. map Some ?objs ! c = Some n) = (\<exists>c<length ?objs. ?objs ! c = n)"
      by (rule ex_cong) simp
    then show ?thesis by (auto simp: set_conv_nth)
  qed
  finally show ?thesis
    by (simp add: single_seq_alignment get_node_set_def len_alignment_def width_def nth_py_def)
qed

lemma single_seq_common:
  "compute_number_common_nodes h (get_single_seq_node_alignment ta pa)
       (get_single_seq_node_alignment tb pb) =
     Inr (path_loc_ids h pa \<inter> path_loc_ids h pb)"
  by (simp add: compute_number_common_nodes_def single_seq_node_set get_node_loc_ids_def
      path_loc_ids_def)

lemma valid_common:
  assumes "valid_alignment a" "valid_alignment b"
  shows "\<exists>S. compute_number_common_nodes h a b = Inr S"
  using get_node_set_valid[OF assms(1)] get_node_set_valid[OF assms(2)]
  by (auto simp: compute_number_common_nodes_def)

lemma modeler_result:
  "\<exists>m. Gene_splice_modeler_init st ps =
         Inr (st\<lparr>printed := printed st @ [m]\<rparr>,
              \<lparr>alignments = map (\<lambda>p. get_single_seq_node_alignment (path_transcript_name p) p) ps\<rparr>) \<and>
       square (length ps) m \<and>
       (\<forall>a<length ps. \<forall>b<length ps. m ! a ! b =
          (if a = b then 0
           else int (card (path_loc_ids (heap st) (ps ! a) \<inter> path_loc_ids (heap st) (ps ! b)))))"
proof -
  let ?als = "map (\<lambda>p. get_single_seq_node_alignment (path_transcript_name p) p) ps"
  let ?cn = "\<lambda>a b. int (card (path_loc_ids (heap st) (ps ! a) \<inter> path_loc_ids (heap st) (ps ! b)))"
  have "\<forall>i<length ?als. \<forall>j<length ?als. i < j \<longrightarrow>
             (\<exists>S. compute_number_common_nodes (heap st) (?als ! i) (?als ! j) = Inr S \<and>
                  int (card S) = ?cn i j)"
    by (simp add: single_seq_common)
  from compute_similarity_matrix_ok[OF this] obtain m where
    m: "compute_similarity_matrix (heap st) ?als = Inr m" "square (length ps) m"
    "\<And>a b. a < length ps \<Longrightarrow> b < length ps \<Longrightarrow>
        m ! a ! b = (if a < b then ?cn a b else if b < a then ?cn b a else 0)"
    by auto
  have e: "\<forall>a<length ps. \<forall>b<length ps. m ! a ! b = (if a = b then 0 else ?cn a b)"
    by (auto simp: m(3) Int_commute)
  have "Gene_splice_modeler_init st ps =
         Inr (st\<lparr>printed := printed st @ [m]\<rparr>, \<lparr>alignments = ?als\<rparr>)"
    using m(1) by (simp add: Gene_splice_modeler_init_def Let_def)
  with m(2) e show ?thesis by blast
qed

lemma example_decoded:
  "map_sum id (\<lambda>r. (heap (fst r), snd r)) (decode_isoforms st0 [example_A, example_B] []) =
     Inr (example_heap, example_paths)"
  by code_simp

lemma example_printed:
  "map_sum id (\<lambda>r. printed (fst r)) (Gene_splice_modeler_init example_st example_paths) =
     Inr [[[0, 1], [1, 0]]]"
  by code_simp

lemma example_shared:
  "card (path_loc_ids (heap example_st) (example_paths ! 0) \<inter>
         path_loc_ids (heap example_st) (example_paths ! 1)) = 1"
  by code_simp

lemma example_lengths: "length example_paths = 2" "printed example_st = []"
  by (simp_all add: example_paths_def example_st_def st0_def)

text \<open>
  Claim C1. For isoforms \<open>i \<noteq> j\<close> of a gene, the cell \<open>[i][j]\<close> of the similarity matrix
  that the modeler builds and prints is the number of distinct locus ids that occur both
  among the nodes of isoform \<open>i\<close> and among the nodes of isoform \<open>j\<close>; only the locus id
  of a node is compared. In the two-isoform example the paths share locus \<open>1\<close> alone, the
  count is 1 and the matrix is \<open>[[0, 1], [1, 0]]\<close>.
\<close>

theorem similarity_cell_counts_shared_locus_ids:
  assumes "i < length ps" "j < length ps" "i \<noteq> j"
  shows "\<exists>st1 g m. Gene_splice_modeler_init st ps = Inr (st1, g) \<and>
           printed st1 = printed st @ [m] \<and>
           m ! i ! j =
             int (card (path_loc_ids (heap st) (ps ! i) \<inter> path_loc_ids (heap st) (ps ! j)))"
proof -
  from modeler_result[of st ps] obtain m g where
    "Gene_splice_modeler_init st ps = Inr (st\<lparr>printed := printed st @ [m]\<rparr>, g)"
    "\<forall>a<length ps. \<forall>b<length ps. m ! a ! b =
          (if a = b then 0
           else int (card (path_loc_ids (heap st) (ps ! a) \<inter> path_loc_ids (heap st) (ps ! b))))"
    by blast
  with assms show ?thesis by auto
qed

theorem similarity_cell_counts_shared_locus_ids_witness:
  "map_sum id (\<lambda>r. (heap (fst r), snd r)) (decode_isoforms st0 [example_A, example_B] []) =
     Inr (heap example_st, example_paths) \<and>
   (\<exists>st1 g m. Gene_splice_modeler_init example_st example_paths = Inr (st1, g) \<and>
       printed st1 = [m] \<and> m ! 0 ! 1 = 1 \<and> m = [[0, 1], [1, 0]])"
proof -
  have h: "(0::nat) < length example_paths" "(1::nat) < length example_paths" "(0::nat) \<noteq> 1"
    by (simp_all add: example_lengths)
  from similarity_cell_counts_shared_locus_ids[OF h, of example_st]
  obtain st1 g m where r: "Gene_splice_modeler_init example_st example_paths = Inr (st1, g)"
    "printed st1 = printed example_st @ [m]"
    "m ! 0 ! 1 = int (card (path_loc_ids (heap example_st) (example_paths ! 0) \<inter>
                             path_loc_ids (heap example_st) (example_paths ! 1)))"
    by blast
  have c: "m ! 0 ! 1 = 1" using r(3) example_shared by simp
  have p: "printed st1 = [m]" using r(2) by (simp add: example_lengths)
  have "m = [[0, 1], [1, 0]]" using example_printed r(1) p by simp
  with r(1) p c have "\<exists>st1 g m. Gene_splice_modeler_init example_st example_paths = Inr (st1, g) \<and>
       printed st1 = [m] \<and> m ! 0 ! 1 = 1 \<and> m = [[0, 1], [1, 0]]" by blast
  moreover have "heap example_st = example_heap" by (simp add: example_st_def)
  ultimately show ?thesis using example_decoded by simp
qed

text \<open>
  Claim C4. For every gene processed, the similarity matrix is square, \<open>N\<close> by \<open>N\<close> for
  \<open>N\<close> isoforms, its diagonal is 0 and it is symmetric.
\<close>

theorem similarity_matrix_square_symmetric:
  "\<exists>st1 g m. Gene_splice_modeler_init st ps = Inr (st1, g) \<and>
       printed st1 = printed st @ [m] \<and>
       length m = length ps \<and>
       (\<forall>i<length ps. length (m ! i) = length ps \<and> m ! i ! i = 0) \<and>
       (\<forall>i<length ps. \<forall>j<length ps. m ! i ! j = m ! j ! i)"
proof -
  from modeler_result[of st ps] obtain m g where
    r: "Gene_splice_modeler_init st ps = Inr (st\<lparr>printed := printed st @ [m]\<rparr>, g)"
    and sq: "square (length ps) m"
    and e: "\<And>a b. a < length ps \<Longrightarrow> b < length ps \<Longrightarrow> m ! a ! b =
          (if a = b then 0
           else int (card (path_loc_ids (heap st) (ps ! a) \<inter> path_loc_ids (heap st) (ps ! b))))"
    by blast
  have "length m = length ps" using sq by (simp add: square_def)
  moreover have "\<forall>i<length ps. length (m ! i) = length ps \<and> m ! i ! i = 0"
    using square_nth[OF sq] e by simp
  moreover have "\<forall>i<length ps. \<forall>j<length ps. m ! i ! j = m ! j ! i"
    by (auto simp: e Int_commute)
  ultimately show ?thesis using r by auto
qed

theorem similarity_matrix_square_symmetric_witness:
  "\<exists>st1 g m. Gene_splice_modeler_init example_st example_paths = Inr (st1, g) \<and>
       printed st1 = [m] \<and> length m = 2 \<and> length (m ! 0) = 2 \<and> length (m ! 1) = 2 \<and>
       m ! 0 ! 0 = 0 \<and> m ! 1 ! 1 = 0 \<and> m ! 0 ! 1 = m ! 1 ! 0"
proof -
  from similarity_matrix_square_symmetric[of example_st example_paths]
  obtain st1 g m where r: "Gene_splice_modeler_init example_st example_paths = Inr (st1, g)"
    "printed st1 = printed example_st @ [m]" "length m = length example_paths"
    "\<forall>i<length example_paths. length (m ! i) = length example_paths \<and> m ! i ! i = 0"
    "\<forall>i<length example_paths. \<forall>j<length example_paths. m ! i ! j = m ! j ! i"
    by blast
  have "length (m ! 0) = 2 \<and> m ! 0 ! 0 = 0" "length (m ! 1) = 2 \<and> m ! 1 ! 1 = 0"
    using r(4) by (simp_all add: example_lengths)
  moreover have "m ! 0 ! 1 = m ! 1 ! 0" using r(5) by (simp add: example_lengths)
  ultimately show ?thesis using r(1,2,3) by (simp add: example_lengths)
qed

lemma square_zero_entries:
  assumes "square n m" "\<forall>a<n. \<forall>b<n. m ! a ! b = 0"
  shows "m = replicate n (replicate n 0)"
proof (rule nth_equalityI)
  show "length m = length (replicate n (replicate n (0::int)))"
    using assms(1) by (simp add: square_def)
next
  fix a assume "a < length m"
  then have a: "a < n" using assms(1) by (simp add: square_def)
  have "m ! a = replicate n 0"
    using square_nth[OF assms(1) a] assms(2) a by (intro nth_equalityI) auto
  then show "m ! a = replicate n (replicate n 0) ! a" using a by simp
qed

lemma example_valid: "list_all valid_alignment example_alignments"
  by code_simp

text \<open>
  Claim C10, as stated: for every list of \<open>N \<ge> 0\<close> alignments
  \<^verbatim>\<open>compute_similarity_matrix\<close> returns without error. It fails for the list of two
  alignments as \<^verbatim>\<open>Node_alignment()\<close> makes them, with no row: \<^verbatim>\<open>width\<close> reads
  \<^verbatim>\<open>aligned_nodes[0]\<close> at line 245 and raises IndexError.
\<close>

theorem similarity_matrix_any_length_counterexample:
  "compute_similarity_matrix [] [Node_alignment_init, Node_alignment_init] = Inl IndexError"
  by code_simp

text \<open>
  Claim C10, amended. For a list of \<open>N \<ge> 0\<close> alignments, valid ones when \<open>N \<ge> 2\<close> (at least
  one row, one row per transcript, every row as wide as row 0),
  \<^verbatim>\<open>compute_similarity_matrix\<close> returns an \<open>N\<close> by \<open>N\<close> matrix without error. Its diagonal
  is 0 and, for \<open>i < j\<close>, the cells \<open>[i][j]\<close> and \<open>[j][i]\<close> both hold the size of the set
  that \<^verbatim>\<open>compute_number_common_nodes\<close> returns for alignments \<open>i\<close> and \<open>j\<close>, so every entry
  is a count that is not negative; for \<open>N = 0\<close> and \<open>N = 1\<close> no pair is compared and the
  matrix is all zeros.
\<close>

theorem similarity_matrix_any_length:
  assumes "length als \<le> 1 \<or> list_all valid_alignment als"
  shows "\<exists>m. compute_similarity_matrix h als = Inr m \<and>
           length m = length als \<and>
           list_all (\<lambda>row. length row = length als) m \<and>
           list_all (list_all (\<lambda>v. 0 \<le> v)) m \<and>
           (\<forall>i<length als. m ! i ! i = 0) \<and>
           (\<forall>i<length als. \<forall>j<length als. i < j \<longrightarrow>
              (\<exists>S. compute_number_common_nodes h (als ! i) (als ! j) = Inr S \<and>
                   m ! i ! j = int (card S) \<and> m ! j ! i = int (card S))) \<and>
           (length als \<le> 1 \<longrightarrow> m = replicate (length als) (replicate (length als) 0))"
proof -
  let ?n = "length als"
  let ?cn = "\<lambda>i j. int (card (projr (compute_number_common_nodes h (als ! i) (als ! j))))"
  have pairs: "\<forall>i<?n. \<forall>j<?n. i < j \<longrightarrow>
          (\<exists>S. compute_number_common_nodes h (als ! i) (als ! j) = Inr S \<and> int (card S) = ?cn i j)"
  proof (intro allI impI)
    fix i j assume ij: "i < ?n" "j < ?n" "i < j"
    then have "\<not> ?n \<le> 1" by linarith
    with assms have "list_all valid_alignment als" by simp
    then have "valid_alignment (als ! i)" "valid_alignment (als ! j)"
      using ij by (simp_all add: list_all_length)
    from valid_common[OF this] obtain S where
      "compute_number_common_nodes h (als ! i) (als ! j) = Inr S" by blast
    then show "\<exists>S. compute_number_common_nodes h (als ! i) (als ! j) = Inr S \<and>
                 int (card S) = ?cn i j" by simp
  qed
  from compute_similarity_matrix_ok[OF this] obtain m where
    m: "compute_similarity_matrix h als = Inr m" "square ?n m"
    "\<And>a b. a < ?n \<Longrightarrow> b < ?n \<Longrightarrow>
        m ! a ! b = (if a < b then ?cn a b else if b < a then ?cn b a else 0)"
    by auto
  have len: "length m = ?n" and rows: "list_all (\<lambda>row. length row = ?n) m"
    using m(2) by (simp_all add: square_def)
  have nonneg: "list_all (list_all (\<lambda>v. 0 \<le> v)) m"
    unfolding list_all_length
  proof (intro allI impI)
    fix a b assume "a < length m" "b < length (m ! a)"
    then have "a < ?n" "b < ?n" using len square_nth[OF m(2)] by auto
    then show "0 \<le> m ! a ! b" by (simp add: m(3))
  qed
  have diag: "\<forall>i<?n. m ! i ! i = 0" by (simp add: m(3))
  have cells: "\<forall>i<?n. \<forall>j<?n. i < j \<longrightarrow>
              (\<exists>S. compute_number_common_nodes h (als ! i) (als ! j) = Inr S \<and>
                   m ! i ! j = int (card S) \<and> m ! j ! i = int (card S))"
  proof (intro allI impI)
    fix i j assume ij: "i < ?n" "j < ?n" "i < j"
    with pairs obtain S where
      S: "compute_number_common_nodes h (als ! i) (als ! j) = Inr S" "int (card S) = ?cn i j"
      by blast
    have "m ! i ! j = ?cn i j" "m ! j ! i = ?cn i j" using ij by (simp_all add: m(3))
    with S show "\<exists>S. compute_number_common_nodes h (als ! i) (als ! j) = Inr S \<and>
                   m ! i ! j = int (card S) \<and> m ! j ! i = int (card S)" by simp
  qed
  have "?n \<le> 1 \<longrightarrow> m = replicate ?n (replicate ?n 0)"
  proof
    assume le: "?n \<le> 1"
    have "\<forall>a<?n. \<forall>b<?n. m ! a ! b = 0"
    proof (intro allI impI)
      fix a b assume "a < ?n" "b < ?n"
      moreover from this le have "a = b" by linarith
      ultimately show "m ! a ! b = 0" by (simp add: m(3))
    qed
    with m(2) show "m = replicate ?n (replicate ?n 0)" by (rule square_zero_entries)
  qed
  with m(1) len rows nonneg diag cells show ?thesis by blast
qed

lemma example_common:
  "compute_number_common_nodes example_heap (example_alignments ! 0) (example_alignments ! 1) =
     Inr {''1''}"
  by code_simp

theorem similarity_matrix_any_length_witness:
  "list_all valid_alignment example_alignments \<and>
   (\<exists>m. compute_similarity_matrix example_heap example_alignments = Inr m \<and>
        length m = 2 \<and> list_all (list_all (\<lambda>v. 0 \<le> v)) m \<and>
        m ! 0 ! 0 = 0 \<and> m ! 1 ! 1 = 0 \<and> m ! 0 ! 1 = 1 \<and> m ! 1 ! 0 = 1) \<and>
   compute_similarity_matrix example_heap [] = Inr [] \<and>
   compute_similarity_matrix example_heap [Node_alignment_init] = Inr [[0]]"
proof -
  have l: "length example_alignments = 2"
    by (simp add: example_alignments_def example_lengths)
  from similarity_matrix_any_length[of example_alignments example_heap] example_valid
  obtain m where m: "compute_similarity_matrix example_heap example_alignments = Inr m"
    "length m = 2" "list_all (list_all (\<lambda>v. 0 \<le> v)) m"
    "\<forall>i<2. m ! i ! i = 0"
    "\<forall>i<2. \<forall>j<2. i < j \<longrightarrow>
       (\<exists>S. compute_number_common_nodes example_heap (example_alignments ! i)
               (example_alignments ! j) = Inr S \<and>
            m ! i ! j = int (card S) \<and> m ! j ! i = int (card S))"
    by (auto simp: l)
  from m(5) have "\<exists>S. compute_number_common_nodes example_heap (example_alignments ! 0)
               (example_alignments ! 1) = Inr S \<and>
            m ! 0 ! 1 = int (card S) \<and> m ! 1 ! 0 = int (card S)"
    by (elim allE[of _ "0::nat"] allE[of _ "1::nat"]) simp
  then obtain S where S: "Inr S = (Inr {''1''} :: error + string set)"
    "m ! 0 ! 1 = int (card S)" "m ! 1 ! 0 = int (card S)"
    unfolding example_common by blast
  from S(1) have "S = {''1''}" by simp
  with S(2,3) have c: "m ! 0 ! 1 = 1" "m ! 1 ! 0 = 1" by simp_all
  from m(4) have d: "m ! 0 ! 0 = 0" "m ! 1 ! 1 = 0" by simp_all
  from m(1,2,3) c d
  have a: "\<exists>m. compute_similarity_matrix example_heap example_alignments = Inr m \<and>
        length m = 2 \<and> list_all (list_all (\<lambda>v. 0 \<le> v)) m \<and>
        m ! 0 ! 0 = 0 \<and> m ! 1 ! 1 = 0 \<and> m ! 0 ! 1 = 1 \<and> m ! 1 ! 0 = 1"
    by blast
  from similarity_matrix_any_length[of "[]" example_heap]
  have b: "compute_similarity_matrix example_heap [] = Inr []" by simp
  from similarity_matrix_any_length[of "[Node_alignment_init]" example_heap]
  have e: "compute_similarity_matrix example_heap [Node_alignment_init] = Inr [[0]]" by simp
  from a b e example_valid show ?thesis by simp
qed

subsection \<open>The driver\<close>

lemma decode_isoforms_ok:
  "list_all (\<lambda>x. decodable_path (iso_path x)) isos \<Longrightarrow>
   \<exists>st1 ps. decode_isoforms st isos acc = Inr (st1, acc @ ps) \<and> length ps = length isos \<and>
      logged st1 = logged st \<and> printed st1 = printed st"
proof (induction isos arbitrary: st acc)
  case Nil
  then show ?case by simp
next
  case (Cons x isos)
  from Cons.prems have dx: "decodable_path (iso_path x)"
    and rest: "list_all (\<lambda>x. decodable_path (iso_path x)) isos" by simp_all
  obtain st0 p where
    d: "Node_path_init st (iso_transcript_name x) (iso_path x) (iso_seq x) = Inr (st0, p)"
    and u: "logged st0 = logged st" "printed st0 = printed st"
    by (simp add: Node_path_init_result[OF dx])
  from Cons.IH[OF rest, of st0 "acc @ [p]"] obtain st1 ps where
    "decode_isoforms st0 isos (acc @ [p]) = Inr (st1, (acc @ [p]) @ ps)" "length ps = length isos"
    "logged st1 = logged st0" "printed st1 = printed st0" by blast
  with d u have "decode_isoforms st (x # isos) acc = Inr (st1, acc @ (p # ps)) \<and>
      length (p # ps) = length (x # isos) \<and> logged st1 = logged st \<and> printed st1 = printed st"
    by simp
  then show ?case by blast
qed

lemma process_gene_skip:
  "length isos < 2 \<Longrightarrow> process_gene st (g, isos) = Inr st"
  by (simp add: process_gene_def)

lemma process_gene_model:
  assumes "2 \<le> length isos" "list_all (\<lambda>x. decodable_path (iso_path x)) isos"
  shows "\<exists>st1 m. process_gene st (g, isos) = Inr st1 \<and>
           logged st1 = logged st @ [(g, length isos)] \<and> printed st1 = printed st @ [m]"
proof -
  from decode_isoforms_ok[OF assms(2), of st "[]"] obtain st0 ps where
    d: "decode_isoforms st isos [] = Inr (st0, ps)" "length ps = length isos"
    "logged st0 = logged st" "printed st0 = printed st" by auto
  let ?st2 = "st0\<lparr>logged := logged st0 @ [(g, length ps)]\<rparr>"
  from modeler_result[of ?st2 ps] obtain m gsm where
    "Gene_splice_modeler_init ?st2 ps = Inr (?st2\<lparr>printed := printed ?st2 @ [m]\<rparr>, gsm)" by blast
  with d assms(1) show ?thesis by (simp add: process_gene_def Let_def)
qed

lemma main_loop_ok:
  "\<forall>e \<in> set genes. 2 \<le> length (snd e) \<longrightarrow> list_all (\<lambda>x. decodable_path (iso_path x)) (snd e) \<Longrightarrow>
   \<exists>st1. main_loop st genes = Inr st1 \<and>
     logged st1 = logged st @
        map (\<lambda>e. (fst e, length (snd e))) (filter (\<lambda>e. 2 \<le> length (snd e)) genes) \<and>
     length (printed st1) =
        length (printed st) + length (filter (\<lambda>e. 2 \<le> length (snd e)) genes)"
proof (induction genes arbitrary: st)
  case Nil
  then show ?case by simp
next
  case (Cons e genes)
  obtain g isos where e: "e = (g, isos)" by (cases e)
  have rest: "\<forall>e \<in> set genes. 2 \<le> length (snd e) \<longrightarrow>
      list_all (\<lambda>x. decodable_path (iso_path x)) (snd e)"
    using Cons.prems by simp
  show ?case
  proof (cases "2 \<le> length isos")
    case True
    then have "list_all (\<lambda>x. decodable_path (iso_path x)) isos" using Cons.prems e by simp
    from process_gene_model[OF True this, of st g] obtain st0 m where
      p: "process_gene st (g, isos) = Inr st0" "logged st0 = logged st @ [(g, length isos)]"
      "printed st0 = printed st @ [m]" by blast
    from Cons.IH[OF rest, of st0] p True e show ?thesis by auto
  next
    case False
    then have "process_gene st (g, isos) = Inr st" by (simp add: process_gene_skip)
    with Cons.IH[OF rest, of st] False e show ?thesis by auto
  qed
qed

lemma example_decodable:
  "decodable_path (iso_path example_A)" "decodable_path (iso_path example_B)"
  by code_simp+

text \<open>
  Claim C7. A gene with exactly one isoform is skipped entirely by the driver: the state
  is left as it was, so no node is built and no matrix is printed for it. Over the whole
  run, when the paths of the genes with two or more isoforms can be decoded, the genes
  announced to the modeler are exactly those with two or more isoforms, in order, and
  one matrix is printed for each of them; the paths of the skipped genes are not read.
\<close>

theorem single_isoform_genes_skipped:
  "(length isos = 1 \<longrightarrow> process_gene st (g, isos) = Inr st) \<and>
   ((\<forall>e \<in> set genes. 2 \<le> length (snd e) \<longrightarrow>
        list_all (\<lambda>x. decodable_path (iso_path x)) (snd e)) \<longrightarrow>
    (\<exists>st1. main_loop st genes = Inr st1 \<and>
      logged st1 = logged st @
        map (\<lambda>e. (fst e, length (snd e))) (filter (\<lambda>e. 2 \<le> length (snd e)) genes) \<and>
      length (printed st1) =
        length (printed st) + length (filter (\<lambda>e. 2 \<le> length (snd e)) genes)))"
  using main_loop_ok[of genes st] by (simp add: process_gene_skip)

theorem single_isoform_genes_skipped_witness:
  "process_gene st0 (''H'', [example_C]) = Inr st0 \<and>
   (\<exists>st1. main_loop st0 [(''H'', [example_C]), (''G'', [example_A, example_B])] = Inr st1 \<and>
      logged st1 = [(''G'', 2)] \<and> length (printed st1) = 1)"
proof -
  let ?genes = "[(''H'', [example_C]), (''G'', [example_A, example_B])]"
  note t = single_isoform_genes_skipped[of "[example_C]" st0 "''H''" ?genes]
  have a: "process_gene st0 (''H'', [example_C]) = Inr st0" using t by simp
  have f: "filter (\<lambda>e. 2 \<le> length (snd e)) ?genes = [(''G'', [example_A, example_B])]"
    by simp
  have h: "\<forall>e \<in> set ?genes. 2 \<le> length (snd e) \<longrightarrow>
        list_all (\<lambda>x. decodable_path (iso_path x)) (snd e)"
    by (simp add: example_decodable)
  from t h obtain st1 where r: "main_loop st0 ?genes = Inr st1"
    "logged st1 = logged st0 @
        map (\<lambda>e. (fst e, length (snd e))) (filter (\<lambda>e. 2 \<le> length (snd e)) ?genes)"
    "length (printed st1) =
        length (printed st0) + length (filter (\<lambda>e. 2 \<le> length (snd e)) ?genes)"
    by blast
  have "logged st1 = [(''G'', 2)]" unfolding r(2) f by (simp add: st0_def)
  moreover have "length (printed st1) = 1" unfolding r(3) f by (simp add: st0_def)
  ultimately show ?thesis using a r(1) by blast
qed

subsection \<open>Gene ids\<close>

lemma newline_is_space: "is_space (CHR 0x0A)"
  by (simp add: is_space_def)

lemma newline_not_digit: "\<not> is_digit (CHR 0x0A)"
  by (simp add: is_digit_def)

lemma letter_i_not_digit: "\<not> is_digit CHR ''i''"
  by (simp add: is_digit_def)

lemma match_isoform_suffix_Some:
  assumes "match_isoform_suffix s = Some r"
  shows "\<exists>d. s = ''_i'' @ d @ r \<and> digits d \<and> (r = [] \<or> r = [CHR 0x0A])"
proof -
  let ?d = "takeWhile is_digit (drop 2 s)"
  from assms have t: "take 2 s = ''_i''" and d: "?d \<noteq> []"
    and r: "r = dropWhile is_digit (drop 2 s)" "r = [] \<or> r = [CHR 0x0A]"
    by (auto simp: match_isoform_suffix_def Let_def split: if_splits)
  have "s = take 2 s @ drop 2 s" by simp
  also have "drop 2 s = ?d @ r" using r(1) by simp
  finally have "s = ''_i'' @ ?d @ r" using t by simp
  moreover have "digits ?d"
    using d by (auto simp: digits_def list_all_iff dest: set_takeWhileD)
  ultimately show ?thesis using r(2) by blast
qed

lemma match_isoform_suffix_exact:
  "digits d \<Longrightarrow> match_isoform_suffix (''_i'' @ d) = Some []"
  by (simp add: match_isoform_suffix_def digits_def takeWhile_digits dropWhile_digits)

lemma match_isoform_suffix_inner:
  assumes "digits ds"
  shows "match_isoform_suffix (c # g @ ''_i'' @ ds) = None"
proof (rule ccontr)
  assume "match_isoform_suffix (c # g @ ''_i'' @ ds) \<noteq> None"
  then obtain r where "match_isoform_suffix (c # g @ ''_i'' @ ds) = Some r" by blast
  from match_isoform_suffix_Some[OF this] obtain d where
    e: "c # g @ ''_i'' @ ds = ''_i'' @ d @ r" and d: "digits d" and r: "r = [] \<or> r = [CHR 0x0A]"
    by blast
  have ne: "ds \<noteq> []" and dd: "list_all is_digit ds" using assms by (simp_all add: digits_def)
  have l: "last (c # g @ ''_i'' @ ds) = last ds" using ne by simp
  have "is_digit (last ds)" using ne dd by (simp add: list_all_iff)
  with l[unfolded e] have ld: "is_digit (last (''_i'' @ d @ r))" by simp
  have "r = []"
  proof (rule ccontr)
    assume "r \<noteq> []"
    with r have "r = [CHR 0x0A]" by simp
    then have "last (''_i'' @ d @ r) = CHR 0x0A" by simp
    with ld show False by (simp only: newline_not_digit)
  qed
  with e have "drop 2 (c # g @ ''_i'' @ ds) = d" by simp
  moreover have "CHR ''i'' \<in> set (drop 2 (c # g @ ''_i'' @ ds))"
    by (cases g) auto
  ultimately have "CHR ''i'' \<in> set d" by simp
  with d show False by (auto simp: digits_def list_all_iff letter_i_not_digit)
qed

lemma sub_isoform_suffix_strips:
  "digits ds \<Longrightarrow> sub_isoform_suffix (g @ ''_i'' @ ds) = g"
proof (induction g)
  case Nil
  then show ?case using match_isoform_suffix_exact[of ds] by simp
next
  case (Cons c g)
  then show ?case using match_isoform_suffix_inner[of ds c g] by simp
qed

lemma sub_isoform_suffix_unchanged:
  assumes "\<forall>g ds. s = g @ ''_i'' @ ds \<longrightarrow> \<not> digits ds" "CHR 0x0A \<notin> set s"
  shows "sub_isoform_suffix s = s"
  using assms
proof (induction s)
  case Nil
  then show ?case by simp
next
  case (Cons c cs)
  have m: "match_isoform_suffix (c # cs) = None"
  proof (rule ccontr)
    assume "match_isoform_suffix (c # cs) \<noteq> None"
    then obtain r where "match_isoform_suffix (c # cs) = Some r" by blast
    from match_isoform_suffix_Some[OF this] obtain d where
      e: "c # cs = ''_i'' @ d @ r" and d: "digits d" and r: "r = [] \<or> r = [CHR 0x0A]"
      by blast
    from r show False
    proof
      assume "r = []"
      with e have "c # cs = [] @ ''_i'' @ d" by simp
      with Cons.prems(1) d show False by blast
    next
      assume "r = [CHR 0x0A]"
      with e have "CHR 0x0A \<in> set (c # cs)" by simp
      with Cons.prems(2) show False by simp
    qed
  qed
  have "\<forall>g ds. cs = g @ ''_i'' @ ds \<longrightarrow> \<not> digits ds"
  proof (intro allI impI)
    fix g ds assume "cs = g @ ''_i'' @ ds"
    then have "c # cs = (c # g) @ ''_i'' @ ds" by simp
    with Cons.prems(1) show "\<not> digits ds" by blast
  qed
  moreover have "CHR 0x0A \<notin> set cs" using Cons.prems(2) by simp
  ultimately have "sub_isoform_suffix cs = cs" by (rule Cons.IH)
  with m show ?case by simp
qed

lemma search_accession_no_newline:
  assumes "search_accession header = Some acc"
  shows "CHR 0x0A \<notin> set acc"
proof
  assume n: "CHR 0x0A \<in> set acc"
  from assms obtain rest where "acc = takeWhile (\<lambda>x. \<not> is_space x) rest"
    by (auto simp: search_accession_def Let_def split: list.splits if_splits)
  with n have "\<not> is_space (CHR 0x0A)" by (auto dest: set_takeWhileD)
  with newline_is_space show False by simp
qed

lemma raise_RuntimeException:
  "raise_named ''RuntimeException'' = Inl (NameError ''RuntimeException'')"
  by (simp add: raise_named_def resolve_name_def module_globals_def builtins_used_def)

text \<open>
  The half of the derivation that works: for a header whose accession and path
  annotation parse, an accession ending in \<open>_i<digits>\<close> is filed under the accession with
  that suffix stripped, so \<^verbatim>\<open>GENEX_i1\<close> and \<^verbatim>\<open>GENEX_i2\<close> both go under \<^verbatim>\<open>GENEX\<close>; without
  such a suffix nothing is filed.
\<close>

lemma gene_id_derivation:
  assumes "search_accession header = Some accession" "search_path header = Some path_str"
  shows "(\<forall>g ds. accession = g @ ''_i'' @ ds \<and> digits ds \<longrightarrow>
            add_trinity_seq_entry d header sq =
              Inr (dict_append d g \<lparr>iso_transcript_name = accession, iso_path = path_str,
                                    iso_seq = sq\<rparr>)) \<and>
         ((\<forall>g ds. accession = g @ ''_i'' @ ds \<longrightarrow> \<not> digits ds) \<longrightarrow>
            add_trinity_seq_entry d header sq = Inl (NameError ''RuntimeException''))"
proof (intro conjI allI impI)
  fix g ds assume a: "accession = g @ ''_i'' @ ds \<and> digits ds"
  then have "sub_isoform_suffix accession = g"
    using sub_isoform_suffix_strips[of ds g] by simp
  moreover have "g \<noteq> accession" using a by simp
  ultimately show "add_trinity_seq_entry d header sq =
      Inr (dict_append d g \<lparr>iso_transcript_name = accession, iso_path = path_str, iso_seq = sq\<rparr>)"
    using assms by (simp add: add_trinity_seq_entry_def Let_def)
next
  assume "\<forall>g ds. accession = g @ ''_i'' @ ds \<longrightarrow> \<not> digits ds"
  then have "sub_isoform_suffix accession = accession"
    using search_accession_no_newline[OF assms(1)] by (rule sub_isoform_suffix_unchanged)
  then show "add_trinity_seq_entry d header sq = Inl (NameError ''RuntimeException'')"
    using assms by (simp add: add_trinity_seq_entry_def Let_def raise_RuntimeException)
qed

lemma example_headers:
  "search_accession ''>GENEX_i1 len=4 path=[1:0-3] [-1, 1, -2]'' = Some ''GENEX_i1''"
  "search_path ''>GENEX_i1 len=4 path=[1:0-3] [-1, 1, -2]'' = Some ''1:0-3''"
  "search_accession ''>GENEX_i2 len=4 path=[1:0-3] [-1, 1, -2]'' = Some ''GENEX_i2''"
  "search_path ''>GENEX_i2 len=4 path=[1:0-3] [-1, 1, -2]'' = Some ''1:0-3''"
  "search_accession ''>GENEX len=4 path=[1:0-3] [-1, 1, -2]'' = Some ''GENEX''"
  "search_path ''>GENEX len=4 path=[1:0-3] [-1, 1, -2]'' = Some ''1:0-3''"
  by code_simp+

lemma gene_id_examples:
  "add_trinity_seq_entry [] ''>GENEX_i1 len=4 path=[1:0-3] [-1, 1, -2]'' ''ACGT'' =
     Inr [(''GENEX'', [\<lparr>iso_transcript_name = ''GENEX_i1'', iso_path = ''1:0-3'',
                         iso_seq = ''ACGT''\<rparr>])] \<and>
   add_trinity_seq_entry [] ''>GENEX_i2 len=4 path=[1:0-3] [-1, 1, -2]'' ''ACGA'' =
     Inr [(''GENEX'', [\<lparr>iso_transcript_name = ''GENEX_i2'', iso_path = ''1:0-3'',
                         iso_seq = ''ACGA''\<rparr>])] \<and>
   add_trinity_seq_entry [] ''>GENEX len=4 path=[1:0-3] [-1, 1, -2]'' ''ACGT'' =
     Inl (NameError ''RuntimeException'')"
proof -
  have d: "digits ''1''" "digits ''2''" by (simp_all add: digits_def is_digit_def)
  have n: "\<forall>g ds. ''GENEX'' = g @ ''_i'' @ ds \<longrightarrow> \<not> digits ds"
  proof (intro allI impI)
    fix g ds assume e: "''GENEX'' = g @ ''_i'' @ ds"
    have "CHR ''_'' \<in> set (g @ ''_i'' @ ds)" by simp
    then have "CHR ''_'' \<in> set ''GENEX''" unfolding e[symmetric] .
    then show "\<not> digits ds" by simp
  qed
  from gene_id_derivation[OF example_headers(1,2), of "[]" "''ACGT''"] d(1)
  have a: "add_trinity_seq_entry [] ''>GENEX_i1 len=4 path=[1:0-3] [-1, 1, -2]'' ''ACGT'' =
     Inr (dict_append [] ''GENEX'' \<lparr>iso_transcript_name = ''GENEX_i1'', iso_path = ''1:0-3'',
                         iso_seq = ''ACGT''\<rparr>)"
    by (elim conjE allE[of _ "''GENEX''"] allE[of _ "''1''"]) simp
  from gene_id_derivation[OF example_headers(3,4), of "[]" "''ACGA''"] d(2)
  have b: "add_trinity_seq_entry [] ''>GENEX_i2 len=4 path=[1:0-3] [-1, 1, -2]'' ''ACGA'' =
     Inr (dict_append [] ''GENEX'' \<lparr>iso_transcript_name = ''GENEX_i2'', iso_path = ''1:0-3'',
                         iso_seq = ''ACGA''\<rparr>)"
    by (elim conjE allE[of _ "''GENEX''"] allE[of _ "''2''"]) simp
  from gene_id_derivation[OF example_headers(5,6), of "[]" "''ACGT''"] n
  have c: "add_trinity_seq_entry [] ''>GENEX len=4 path=[1:0-3] [-1, 1, -2]'' ''ACGT'' =
     Inl (NameError ''RuntimeException'')"
    by blast
  from a b c show ?thesis by simp
qed

text \<open>
  Claim C6 says that an accession without an \<open>_i<digits>\<close> suffix raises the error of a
  missing isoform suffix. In the source line 164 means to raise it, but names
  \<^verbatim>\<open>RuntimeException\<close>, which is not defined: for the header of accession \<^verbatim>\<open>GENEX\<close> what
  leaves the function is the NameError of that name, the very value that line 152 gives
  for a header with no accession at all.
\<close>

theorem missing_suffix_raises_name_error:
  "add_trinity_seq_entry [] ''>GENEX len=4 path=[1:0-3] [-1, 1, -2]'' ''ACGT'' =
     Inl (NameError ''RuntimeException'') \<and>
   add_trinity_seq_entry [] ''GENEX_i1 len=4 path=[1:0-3] [-1, 1, -2]'' ''ACGT'' =
     Inl (NameError ''RuntimeException'')"
  by code_simp

end
